theory Spec2Isabelle
  imports Complex_Main
begin

section \<open>JavaScript values\<close>

text \<open>
  The signalling relay exists twice in the repository, as a Cloudflare Durable Object
  (class \<open>SignalHub\<close> of \<open>src/worker.js\<close>) and as a Node server. Both hold the same
  helper functions (\<open>roomKey\<close>, \<open>validChannelName\<close>, \<open>normalizeDisplayName\<close>,
  \<open>roomUsedNames\<close>, \<open>uniqueName\<close>, \<open>leaveRoom\<close>, \<open>relayPeerMeta\<close>), as methods of the class
  in the one and as functions over module-level registries in the other; the Node server
  writes the message handlers out inside its connection callback. The development below
  embeds \<open>SignalHub\<close>.

  A JavaScript string is a \<open>string\<close>, one \<open>char\<close> per UTF-16 code unit; HOL's \<open>char\<close>
  has 256 values, so the strings of the model are those whose code units are below 256.
  A value that \<open>JSON.parse\<close> returns is a \<open>json\<close>; numbers are the integers (the program
  reads a number only through \<open>String\<close>, \<open>typeof\<close> and \<open>===\<close>). \<open>undefined\<close>, the value
  of a missing property, is \<open>None\<close> of \<open>json option\<close>. An object lists its own properties,
  each key once, as \<open>JSON.parse\<close> leaves them.
\<close>

datatype json =
    JNull
  | JBool bool
  | JNum int
  | JStr string
  | JArr "json list"
  | JObj "(string \<times> json) list"

text \<open>The one exception the handlers can raise: a \<open>TypeError\<close> of the runtime.\<close>

datatype error = TypeError

text \<open>
  \<open>value.key\<close> for the keys the program reads (\<open>type\<close>, \<open>app\<close>, \<open>room\<close>, \<open>meta\<close>,
  \<open>to\<close>, \<open>signal\<close>, \<open>payload\<close>, \<open>patch\<close>, \<open>name\<close>, \<open>status\<close>): an own property of an
  object, \<open>undefined\<close> on an array, a string, a number or a boolean. On \<open>null\<close> the read
  raises; the callers below test for \<open>JNull\<close> before they read.
\<close>

fun getProp :: "json \<Rightarrow> string \<Rightarrow> json option" where
  "getProp (JObj kvs) k = map_of kvs k"
| "getProp v k = None"

text \<open>\<open>Object.prototype.hasOwnProperty.call(value, key)\<close> for the keys \<open>name\<close> and \<open>status\<close>.\<close>

fun hasOwnProperty :: "json \<Rightarrow> string \<Rightarrow> bool" where
  "hasOwnProperty (JObj kvs) k = (map_of kvs k \<noteq> None)"
| "hasOwnProperty v k = False"

text \<open>\<open>value && typeof value === "object"\<close>: an object or an array (\<open>null\<close> is falsy).\<close>

fun isObject :: "json option \<Rightarrow> bool" where
  "isObject (Some (JObj kvs)) = True"
| "isObject (Some (JArr xs)) = True"
| "isObject v = False"

text \<open>Truthiness of a nullable string (\<open>client.app\<close>, \<open>ignoreId\<close>): set and not empty.\<close>

fun truthy :: "string option \<Rightarrow> bool" where
  "truthy None = False"
| "truthy (Some s) = (s \<noteq> [])"

subsection \<open>Numbers and strings\<close>

definition digitChar :: "nat \<Rightarrow> char" where
  "digitChar d = char_of (48 + d)"

text \<open>The decimal digits of a natural number, as a template literal \<open>`${n}`\<close> prints them.\<close>

fun natToString :: "nat \<Rightarrow> string" where
  "natToString n =
     (if n < 10 then [digitChar n] else natToString (n div 10) @ [digitChar (n mod 10)])"

declare natToString.simps [simp del]

text \<open>
  \<open>String(n)\<close> on an integer below \<open>10^21\<close> in absolute value; from there on JavaScript
  prints an exponent, which no property below depends on.
\<close>

definition numberToString :: "int \<Rightarrow> string" where
  "numberToString i = (if i < 0 then CHR ''-'' # natToString (nat (- i)) else natToString (nat i))"

text \<open>
  \<open>Array.prototype.join(",")\<close> over elements already converted; one element that raised
  makes the whole conversion raise.
\<close>

fun joinComma :: "string option list \<Rightarrow> string option" where
  "joinComma [] = Some []"
| "joinComma [x] = x"
| "joinComma (x # y # ys) =
     (case x of None \<Rightarrow> None
      | Some s \<Rightarrow> (case joinComma (y # ys) of None \<Rightarrow> None | Some t \<Rightarrow> Some (s @ '','' @ t)))"

text \<open>
  \<open>String(value)\<close> on a parsed JSON value; \<open>None\<close> is the \<open>TypeError\<close> "Cannot convert
  object to primitive value". A plain object prints as \<open>[object Object]\<close> through
  \<open>Object.prototype.toString\<close>, unless it has an own property \<open>toString\<close>: that property
  is JSON data, never a function, \<open>valueOf\<close> returns the object itself, and the conversion
  raises. An array is its elements joined by commas, \<open>null\<close> elements printing empty.
\<close>

fun jsString :: "json \<Rightarrow> string option" where
  "jsString JNull = Some ''null''"
| "jsString (JBool b) = Some (if b then ''true'' else ''false'')"
| "jsString (JNum i) = Some (numberToString i)"
| "jsString (JStr s) = Some s"
| "jsString (JArr xs) = joinComma (map (\<lambda>x. if x = JNull then Some [] else jsString x) xs)"
| "jsString (JObj kvs) =
     (if map_of kvs ''toString'' \<noteq> None then None else Some ''[object Object]'')"

text \<open>
  White space as \<open>\s\<close> and \<open>trim\<close> see it, among the code units below 256: tab, line
  feed, vertical tab, form feed, carriage return, space, no-break space.
\<close>

definition isSpace :: "char \<Rightarrow> bool" where
  "isSpace c = (of_char c \<in> {9, 10, 11, 12, 13, 32, 160 :: nat})"

text \<open>\<open>.replace(/\s+/g, " ")\<close>: every maximal run of white space becomes one space.\<close>

fun collapseSpaces :: "string \<Rightarrow> string" where
  "collapseSpaces [] = []"
| "collapseSpaces [c] = [if isSpace c then CHR '' '' else c]"
| "collapseSpaces (c # d # cs) =
     (if isSpace c then (if isSpace d then collapseSpaces (d # cs) else CHR '' '' # collapseSpaces (d # cs))
      else c # collapseSpaces (d # cs))"

definition trim :: "string \<Rightarrow> string" where
  "trim s = rev (dropWhile isSpace (rev (dropWhile isSpace s)))"

text \<open>\<open>toLowerCase\<close> on code units below 256: A-Z and the accented capitals of Latin-1.\<close>

definition lowerChar :: "char \<Rightarrow> char" where
  "lowerChar c =
     (let n = (of_char c :: nat)
      in if (65 \<le> n \<and> n \<le> 90) \<or> (192 \<le> n \<and> n \<le> 222 \<and> n \<noteq> 215) then char_of (n + 32) else c)"

definition toLowerCase :: "string \<Rightarrow> string" where
  "toLowerCase s = map lowerChar s"

section \<open>Identity and validation\<close>

definition roomKey :: "string \<Rightarrow> string \<Rightarrow> string" where
  "roomKey a r = a @ ''::'' @ r"

text \<open>The character class \<open>[a-zA-Z0-9_-]\<close>.\<close>

definition channelChar :: "char \<Rightarrow> bool" where
  "channelChar c =
     (c \<in> set (''abcdefghijklmnopqrstuvwxyz'' @ ''ABCDEFGHIJKLMNOPQRSTUVWXYZ'' @ ''0123456789'' @ ''_-''))"

text \<open>
  \<open>validChannelName\<close> on a string; a value that is not a string fails \<open>typeof\<close> first
  (\<open>validChannelName\<close> below).
\<close>

definition validChannelString :: "string \<Rightarrow> bool" where
  "validChannelString s = (length s > 0 \<and> length s \<le> 64 \<and> list_all channelChar s)"

fun validChannelName :: "json option \<Rightarrow> bool" where
  "validChannelName (Some (JStr s)) = validChannelString s"
| "validChannelName v = False"

text \<open>
  \<open>normalizeDisplayName\<close>: \<open>cleanName\<close> is the chain after \<open>String(value ?? "")\<close>
  (collapse, trim, the first 24 code units, \<open>"Player"\<close> when nothing is left).
\<close>

definition cleanName :: "string \<Rightarrow> string" where
  "cleanName s = (let cleaned = take 24 (trim (collapseSpaces s)) in if cleaned = [] then ''Player'' else cleaned)"

fun normalizeDisplayName :: "json option \<Rightarrow> error + string" where
  "normalizeDisplayName None = Inr (cleanName [])"
| "normalizeDisplayName (Some JNull) = Inr (cleanName [])"
| "normalizeDisplayName (Some v) =
     (case jsString v of None \<Rightarrow> Inl TypeError | Some s \<Rightarrow> Inr (cleanName s))"

definition normalizePresenceStatus :: "json option \<Rightarrow> string" where
  "normalizePresenceStatus v = (if v = Some (JStr ''playing'') then ''playing'' else ''lobby'')"

text \<open>
  \<open>normalizeMeta\<close>: the fields are read from \<open>input\<close> when it is an object or an array,
  from \<open>{}\<close> otherwise. The name is normalized first, and its conversion may raise.
\<close>

record meta =
  name :: string
  status :: string

definition normalizeMeta :: "json option \<Rightarrow> error + meta" where
  "normalizeMeta input =
     (let nameField = (case input of Some v \<Rightarrow> if isObject input then getProp v ''name'' else None | None \<Rightarrow> None);
          statusField = (case input of Some v \<Rightarrow> if isObject input then getProp v ''status'' else None | None \<Rightarrow> None)
      in case normalizeDisplayName nameField of
           Inl e \<Rightarrow> Inl e
         | Inr n \<Rightarrow> Inr \<lparr>name = n, status = normalizePresenceStatus statusField\<rparr>)"

subsection \<open>Double-precision arithmetic\<close>

text \<open>
  \<open>Math.random()\<close> returns a double of \<open>[0, 1)\<close>, and \<open>*\<close> and \<open>+\<close> each round their exact
  result to the nearest double, ties going to the even significand. A finite double is kept
  as the rational number it denotes.

  \<open>bitLength n\<close> is the number of binary digits of a positive integer, and
  \<open>floorLog2 x\<close> is the exponent \<open>k\<close> with \<open>2^k \<le> x < 2^(k+1)\<close>, for a positive \<open>x\<close>. The
  doubles around \<open>x\<close> are the multiples of \<open>2^e\<close>, with \<open>e\<close> 52 below that exponent (a
  significand of 53 bits) and never below \<open>-1074\<close> (the subnormal numbers); \<open>toDouble x\<close>
  is the nearest of them. The exponent is not bounded above: every operand of this program
  is below 1024, far from the overflow threshold.
\<close>

function bitLength :: "int \<Rightarrow> nat" where
  "bitLength n = (if n \<le> 0 then 0 else Suc (bitLength (n div 2)))"
  by pat_completeness auto

termination
  by (relation "measure nat") auto

declare bitLength.simps [simp del]

definition pow2 :: "int \<Rightarrow> rat" where
  "pow2 e = (if 0 \<le> e then 2 ^ nat e else 1 / 2 ^ nat (- e))"

definition floorLog2 :: "rat \<Rightarrow> int" where
  "floorLog2 x =
     (if 1 \<le> x then int (bitLength \<lfloor>x\<rfloor>) - 1
      else - int (bitLength (\<lceil>1 / x\<rceil> - 1)))"

definition roundTiesToEven :: "rat \<Rightarrow> int" where
  "roundTiesToEven q =
     (let f = \<lfloor>q\<rfloor>; d = q - of_int f
      in if d < 1 / 2 then f else if 1 / 2 < d then f + 1 else if even f then f else f + 1)"

definition ulpExponent :: "rat \<Rightarrow> int" where
  "ulpExponent x = max (floorLog2 \<bar>x\<bar> - 52) (- 1074)"

definition toDouble :: "rat \<Rightarrow> rat" where
  "toDouble x =
     (if x = 0 then 0
      else sgn x * of_int (roundTiesToEven (\<bar>x\<bar> / pow2 (ulpExponent x))) * pow2 (ulpExponent x))"

text \<open>A draw of \<open>Math.random()\<close>: a double, at least 0 and below 1.\<close>

definition isDraw :: "rat \<Rightarrow> bool" where
  "isDraw u = (0 \<le> u \<and> u < 1 \<and> toDouble u = u)"

text \<open>
  \<open>Math.floor(Math.random() * 900 + 100)\<close> on the draw \<open>u\<close>: the product is rounded, then
  the sum; 900 and 100 are doubles, and the floor of a double is exact.
\<close>

definition randomSuffix :: "rat \<Rightarrow> nat" where
  "randomSuffix u = nat \<lfloor>toDouble (toDouble (u * 900) + 100)\<rfloor>"

section \<open>The registries\<close>

text \<open>
  A socket is an opaque handle. A client object is a record; the object is shared between
  the \<open>clients\<close> map and the handlers, so a handler that assigns to a field of \<open>client\<close>
  writes the record back under the key the object is stored at. A room's \<open>Set\<close> of member
  ids is the list of its elements in insertion order, which is the order \<open>for ... of\<close> and
  \<open>Array.from\<close> enumerate. Every \<open>wsJson(ws, payload)\<close> is appended to \<open>sent\<close>, whether
  or not the socket still takes it (\<open>wsJson\<close> swallows a failed send).
  \<open>env_MAX_ROOM_SIZE\<close> is \<open>Number(this.env.MAX_ROOM_SIZE ?? 64)\<close>, \<open>None\<close> when that is
  \<open>NaN\<close> or infinite.
\<close>

type_synonym socket = nat

record client =
  cid :: string
  ws :: socket
  app :: "string option"
  room :: "string option"
  meta :: "meta option"

record hub =
  rooms :: "string \<rightharpoonup> string list"
  clients :: "string \<rightharpoonup> client"
  wsToClientId :: "socket \<rightharpoonup> string"
  env_MAX_ROOM_SIZE :: "rat option"
  sent :: "(socket \<times> json) list"

definition wsJson :: "socket \<Rightarrow> json \<Rightarrow> hub \<Rightarrow> hub" where
  "wsJson w payload h = h\<lparr>sent := sent h @ [(w, payload)]\<rparr>"

definition maxRoomSize :: "hub \<Rightarrow> nat" where
  "maxRoomSize h =
     (case env_MAX_ROOM_SIZE h of
        None \<Rightarrow> 64
      | Some raw \<Rightarrow> if raw < 2 then 64 else nat \<lfloor>raw\<rfloor>)"

text \<open>\<open>Set.prototype.add\<close> and \<open>Set.prototype.delete\<close> on the list of elements.\<close>

definition setAdd :: "string \<Rightarrow> string list \<Rightarrow> string list" where
  "setAdd x xs = (if x \<in> set xs then xs else xs @ [x])"

definition setDelete :: "string \<Rightarrow> string list \<Rightarrow> string list" where
  "setDelete x xs = removeAll x xs"

text \<open>A template literal prints \<open>null\<close> for a field that is still \<open>null\<close>.\<close>

fun tmpl :: "string option \<Rightarrow> string" where
  "tmpl None = ''null''"
| "tmpl (Some s) = s"

subsection \<open>The messages the hub sends\<close>

definition errorMsg :: "string \<Rightarrow> (string \<times> json) list \<Rightarrow> json" where
  "errorMsg reason extra = JObj ([(''type'', JStr ''error''), (''reason'', JStr reason)] @ extra)"

fun metaJson :: "meta option \<Rightarrow> json" where
  "metaJson None = JNull"
| "metaJson (Some m) = JObj [(''name'', JStr (name m)), (''status'', JStr (status m))]"

definition peerLeftMsg :: "string \<Rightarrow> json" where
  "peerLeftMsg i = JObj [(''type'', JStr ''peer-left''), (''id'', JStr i)]"

definition peerJoinedMsg :: "string \<Rightarrow> meta option \<Rightarrow> json" where
  "peerJoinedMsg i m = JObj [(''type'', JStr ''peer-joined''), (''id'', JStr i), (''meta'', metaJson m)]"

definition metaUpdatedMsg :: "string \<Rightarrow> meta option \<Rightarrow> json" where
  "metaUpdatedMsg i m = JObj [(''type'', JStr ''meta-updated''), (''id'', JStr i), (''meta'', metaJson m)]"

definition peerMetaMsg :: "string \<Rightarrow> meta option \<Rightarrow> json" where
  "peerMetaMsg i m = JObj [(''type'', JStr ''peer-meta''), (''id'', JStr i), (''meta'', metaJson m)]"

text \<open>\<open>{type, from, [field]: msg[field] ?? null}\<close> for \<open>signal\<close>, \<open>direct\<close> and \<open>broadcast\<close>.\<close>

definition relayMsg :: "string \<Rightarrow> string \<Rightarrow> string \<Rightarrow> json \<Rightarrow> json" where
  "relayMsg kind field sender msg =
     JObj [(''type'', JStr kind), (''from'', JStr sender),
           (field, (case getProp msg field of None \<Rightarrow> JNull | Some v \<Rightarrow> v))]"

definition welcomeMsg ::
  "string \<Rightarrow> string \<Rightarrow> string \<Rightarrow> string list \<Rightarrow> (string \<times> meta option) list \<Rightarrow> meta option \<Rightarrow> nat \<Rightarrow> json" where
  "welcomeMsg i a r peers peerMeta m maxSize =
     JObj [(''type'', JStr ''welcome''), (''id'', JStr i), (''app'', JStr a), (''room'', JStr r),
           (''peers'', JArr (map JStr peers)),
           (''peerMeta'', JArr (map (\<lambda>(p, pm). JObj [(''id'', JStr p), (''meta'', metaJson pm)]) peerMeta)),
           (''meta'', metaJson m), (''maxRoomSize'', JNum (int maxSize))]"

section \<open>The name allocator\<close>

text \<open>
  The body of the loop of \<open>roomUsedNames\<close>, over the members in order. The set it builds
  does not depend on the order of the additions.
\<close>

fun usedNamesLoop :: "(string \<rightharpoonup> client) \<Rightarrow> string option \<Rightarrow> string list \<Rightarrow> string set" where
  "usedNamesLoop cs ignoreId [] = {}"
| "usedNamesLoop cs ignoreId (memberId # rest) =
     (if truthy ignoreId \<and> Some memberId = ignoreId then usedNamesLoop cs ignoreId rest
      else (case cs memberId of
              None \<Rightarrow> usedNamesLoop cs ignoreId rest
            | Some member \<Rightarrow>
                (case meta member of
                   None \<Rightarrow> usedNamesLoop cs ignoreId rest
                 | Some m \<Rightarrow>
                     if name m \<noteq> [] then insert (toLowerCase (name m)) (usedNamesLoop cs ignoreId rest)
                     else usedNamesLoop cs ignoreId rest)))"

definition roomUsedNames :: "hub \<Rightarrow> string \<Rightarrow> string option \<Rightarrow> string set" where
  "roomUsedNames h key ignoreId =
     (case rooms h key of None \<Rightarrow> {} | Some members \<Rightarrow> usedNamesLoop (clients h) ignoreId members)"

text \<open>
  The two loops of \<open>uniqueName\<close>; \<open>None\<close> when the loop ends without returning. \<open>rnd i\<close>
  is the draw of \<open>Math.random()\<close> in round \<open>i\<close>.
\<close>

function randomLoop :: "(nat \<Rightarrow> rat) \<Rightarrow> string set \<Rightarrow> string \<Rightarrow> nat \<Rightarrow> string option" where
  "randomLoop rnd used base i =
     (if i < 500 then
        (if toLowerCase (base @ natToString (randomSuffix (rnd i))) \<notin> used
         then Some (base @ natToString (randomSuffix (rnd i)))
         else randomLoop rnd used base (i + 1))
      else None)"
  by pat_completeness auto
termination
  by (relation "measure (\<lambda>(rnd, used, base, i). 500 - i)") auto

declare randomLoop.simps [simp del]

function sequentialLoop :: "string set \<Rightarrow> string \<Rightarrow> nat \<Rightarrow> string option" where
  "sequentialLoop used base n =
     (if n < 10000 then
        (if toLowerCase (base @ natToString n) \<notin> used then Some (base @ natToString n)
         else sequentialLoop used base (n + 1))
      else None)"
  by pat_completeness auto
termination
  by (relation "measure (\<lambda>(used, base, n). 10000 - n)") auto

declare sequentialLoop.simps [simp del]

text \<open>
  \<open>uniqueName\<close>; \<open>baseName\<close> is a string at both call sites, so \<open>normalizeDisplayName\<close>
  is \<open>cleanName\<close> on it. \<open>now\<close> is what \<open>Date.now()\<close> returns.
\<close>

definition uniqueName :: "(nat \<Rightarrow> rat) \<Rightarrow> nat \<Rightarrow> hub \<Rightarrow> string \<Rightarrow> string \<Rightarrow> string option \<Rightarrow> string" where
  "uniqueName rnd now h baseName key ignoreId =
     (let base = cleanName baseName;
          used = roomUsedNames h key ignoreId
      in if toLowerCase base \<notin> used then base
         else (case randomLoop rnd used base 0 of
                 Some candidate \<Rightarrow> candidate
               | None \<Rightarrow>
                   (case sequentialLoop used base 2 of
                      Some candidate \<Rightarrow> candidate
                    | None \<Rightarrow> base @ natToString (now mod 100000))))"

section \<open>The session state machine and the relay dispatcher\<close>

text \<open>\<open>leaveRoom\<close>: the teardown routine.\<close>

definition leaveRoom :: "string \<Rightarrow> hub \<Rightarrow> hub" where
  "leaveRoom clientId h =
     (case clients h clientId of
        None \<Rightarrow> h
      | Some c \<Rightarrow>
          (let h1 =
                 (if truthy (app c) \<and> truthy (room c) then
                    (let key = roomKey (tmpl (app c)) (tmpl (room c))
                     in case rooms h key of
                          None \<Rightarrow> h
                        | Some members \<Rightarrow>
                            (let members' = setDelete clientId members;
                                 h2 = h\<lparr>rooms := (rooms h)(key \<mapsto> members')\<rparr>;
                                 h3 = fold (\<lambda>memberId s.
                                              case clients s memberId of
                                                None \<Rightarrow> s
                                              | Some member \<Rightarrow> wsJson (ws member) (peerLeftMsg clientId) s)
                                        members' h2
                             in if length members' = 0 then h3\<lparr>rooms := (rooms h3)(key := None)\<rparr> else h3))
                  else h)
           in h1\<lparr>clients := (clients h1)(clientId := None)\<rparr>))"

text \<open>\<open>relayPeerMeta\<close>, on the client object as it is after the assignment of its meta.\<close>

definition relayPeerMeta :: "client \<Rightarrow> bool \<Rightarrow> hub \<Rightarrow> hub" where
  "relayPeerMeta c includeSelfAck h =
     (if \<not> truthy (app c) \<or> \<not> truthy (room c) then h
      else (case rooms h (roomKey (tmpl (app c)) (tmpl (room c))) of
              None \<Rightarrow> h
            | Some members \<Rightarrow>
                (let h1 = (if includeSelfAck then wsJson (ws c) (metaUpdatedMsg (cid c) (meta c)) h else h)
                 in fold (\<lambda>peerId s.
                            if peerId = cid c then s
                            else (case clients s peerId of
                                    None \<Rightarrow> s
                                  | Some peer \<Rightarrow> wsJson (ws peer) (peerMetaMsg (cid c) (meta c)) s))
                      members h1)))"

text \<open>
  \<open>handleSetMeta\<close>. \<open>k\<close> is the key of \<open>clients\<close> under which the object \<open>client\<close> is
  stored. The conversion of \<open>patch.name\<close> may raise, before anything is assigned or sent.
\<close>

definition handleSetMeta ::
  "(nat \<Rightarrow> rat) \<Rightarrow> nat \<Rightarrow> string \<Rightarrow> client \<Rightarrow> json option \<Rightarrow> hub \<Rightarrow> error + hub" where
  "handleSetMeta rnd now k c patch h =
     (case patch of
        None \<Rightarrow> Inr (wsJson (ws c) (errorMsg ''invalid-meta-patch'' []) h)
      | Some p \<Rightarrow>
          if \<not> isObject patch then Inr (wsJson (ws c) (errorMsg ''invalid-meta-patch'' []) h)
          else
            (let next0 = \<lparr>name = (case meta c of None \<Rightarrow> ''Player'' | Some m \<Rightarrow> name m),
                          status = (case meta c of None \<Rightarrow> ''lobby'' | Some m \<Rightarrow> status m)\<rparr>;
                 named =
                   (if hasOwnProperty p ''name'' then
                      (case normalizeDisplayName (getProp p ''name'') of
                         Inl e \<Rightarrow> Inl e
                       | Inr n \<Rightarrow>
                           Inr (next0\<lparr>name :=
                                  uniqueName rnd now h n (roomKey (tmpl (app c)) (tmpl (room c))) (Some (cid c))\<rparr>))
                    else Inr next0)
             in case named of
                  Inl e \<Rightarrow> Inl e
                | Inr next1 \<Rightarrow>
                    (let next2 = (if hasOwnProperty p ''status''
                                  then next1\<lparr>status := normalizePresenceStatus (getProp p ''status'')\<rparr>
                                  else next1);
                         c' = c\<lparr>meta := Some next2\<rparr>
                     in Inr (relayPeerMeta c' True (h\<lparr>clients := (clients h)(k \<mapsto> c')\<rparr>)))))"

text \<open>
  The branches for \<open>signal\<close> and \<open>direct\<close> of \<open>handleJoinedClientMessage\<close> are the same
  text up to the message type and the name of the payload field.
\<close>

definition relayAddressed :: "string \<Rightarrow> string \<Rightarrow> client \<Rightarrow> json \<Rightarrow> hub \<Rightarrow> hub" where
  "relayAddressed kind field c msg h =
     (case getProp msg ''to'' of
        Some (JStr targetId) \<Rightarrow>
          (case clients h targetId of
             None \<Rightarrow> wsJson (ws c) (errorMsg ''peer-not-found'' [(''to'', JStr targetId)]) h
           | Some target \<Rightarrow>
               if app target \<noteq> app c \<or> room target \<noteq> room c
               then wsJson (ws c) (errorMsg ''peer-outside-room'' [(''to'', JStr targetId)]) h
               else wsJson (ws target) (relayMsg kind field (cid c) msg) h)
      | _ \<Rightarrow> wsJson (ws c) (errorMsg ''missing-target'' []) h)"

definition broadcast :: "client \<Rightarrow> json \<Rightarrow> hub \<Rightarrow> hub" where
  "broadcast c msg h =
     (case rooms h (roomKey (tmpl (app c)) (tmpl (room c))) of
        None \<Rightarrow> h
      | Some members \<Rightarrow>
          fold (\<lambda>peerId s.
                  if peerId = cid c then s
                  else (case clients s peerId of
                          None \<Rightarrow> s
                        | Some peer \<Rightarrow> wsJson (ws peer) (relayMsg ''broadcast'' ''payload'' (cid c) msg) s))
            members h)"

text \<open>\<open>handleJoinedClientMessage\<close>; reading \<open>msg.type\<close> of \<open>null\<close> raises.\<close>

definition handleJoinedClientMessage ::
  "(nat \<Rightarrow> rat) \<Rightarrow> nat \<Rightarrow> string \<Rightarrow> client \<Rightarrow> json \<Rightarrow> hub \<Rightarrow> error + hub" where
  "handleJoinedClientMessage rnd now k c msg h =
     (if msg = JNull then Inl TypeError
      else if getProp msg ''type'' = Some (JStr ''signal'') then Inr (relayAddressed ''signal'' ''signal'' c msg h)
      else if getProp msg ''type'' = Some (JStr ''direct'') then Inr (relayAddressed ''direct'' ''payload'' c msg h)
      else if getProp msg ''type'' = Some (JStr ''broadcast'') then Inr (broadcast c msg h)
      else if getProp msg ''type'' = Some (JStr ''set-meta'') then handleSetMeta rnd now k c (getProp msg ''patch'') h
      else if getProp msg ''type'' = Some (JStr ''ping'') then
        Inr (wsJson (ws c) (JObj [(''type'', JStr ''pong''), (''now'', JNum (int now))]) h)
      else Inr (wsJson (ws c)
                  (errorMsg ''unknown-message-type''
                     [(''received'', (case getProp msg ''type'' of None \<Rightarrow> JNull | Some t \<Rightarrow> t))]) h))"

text \<open>The string of a value that has passed \<open>validChannelName\<close>.\<close>

fun stringOf :: "json option \<Rightarrow> string" where
  "stringOf (Some (JStr s)) = s"
| "stringOf v = []"

text \<open>
  \<open>handleFirstJoin\<close>, statement by statement: the three rejections, the normalized meta
  and the allocated name, the snapshot of the peers, the two insertions, the welcome, the
  notifications.
\<close>

definition handleFirstJoin ::
  "(nat \<Rightarrow> rat) \<Rightarrow> nat \<Rightarrow> string \<Rightarrow> client \<Rightarrow> json \<Rightarrow> hub \<Rightarrow> error + hub" where
  "handleFirstJoin rnd now k c msg h =
     (if msg = JNull then Inl TypeError
      else if getProp msg ''type'' \<noteq> Some (JStr ''join'') then
        Inr (wsJson (ws c) (errorMsg ''join-required-first'' []) h)
      else if \<not> validChannelName (getProp msg ''app'') \<or> \<not> validChannelName (getProp msg ''room'') then
        Inr (wsJson (ws c) (errorMsg ''invalid-app-or-room'' []) h)
      else
        (let a = stringOf (getProp msg ''app'');
             r = stringOf (getProp msg ''room'');
             key = roomKey a r;
             members = (case rooms h key of None \<Rightarrow> [] | Some ms \<Rightarrow> ms);
             maxSize = maxRoomSize h
         in if length members \<ge> maxSize then
              Inr (wsJson (ws c) (errorMsg ''room-full'' [(''max'', JNum (int maxSize))]) h)
            else
              (case normalizeMeta (getProp msg ''meta'') of
                 Inl e \<Rightarrow> Inl e
               | Inr normalized \<Rightarrow>
                   (let nextMeta = normalized\<lparr>name := uniqueName rnd now h (name normalized) key (Some (cid c))\<rparr>;
                        peers = members;
                        peerMeta = map (\<lambda>peerId. (peerId, (case clients h peerId of
                                                              None \<Rightarrow> None
                                                            | Some peer \<Rightarrow> meta peer))) peers;
                        h1 = h\<lparr>rooms := (rooms h)(key \<mapsto> setAdd (cid c) members)\<rparr>;
                        c' = c\<lparr>app := Some a, room := Some r, meta := Some nextMeta\<rparr>;
                        h2 = h1\<lparr>clients := (clients h1)(k \<mapsto> c')\<rparr>;
                        h3 = wsJson (ws c') (welcomeMsg (cid c') a r peers peerMeta (meta c') maxSize) h2
                    in Inr (fold (\<lambda>peerId s.
                                    case clients s peerId of
                                      None \<Rightarrow> s
                                    | Some peer \<Rightarrow> wsJson (ws peer) (peerJoinedMsg (cid c') (meta c')) s)
                              peers h3)))))"

text \<open>
  \<open>handleMessage\<close>; \<open>raw\<close> is \<open>None\<close> when \<open>JSON.parse\<close> raises on the text received,
  else the parsed value.
\<close>

definition handleMessage ::
  "(nat \<Rightarrow> rat) \<Rightarrow> nat \<Rightarrow> socket \<Rightarrow> json option \<Rightarrow> hub \<Rightarrow> error + hub" where
  "handleMessage rnd now w raw h =
     (case wsToClientId h w of
        None \<Rightarrow> Inr h
      | Some clientId \<Rightarrow>
          if clientId = [] then Inr h
          else (case clients h clientId of
                  None \<Rightarrow> Inr h
                | Some c \<Rightarrow>
                    (case raw of
                       None \<Rightarrow> Inr (wsJson w (errorMsg ''invalid-json'' []) h)
                     | Some msg \<Rightarrow>
                         if \<not> (truthy (app c) \<and> truthy (room c)) then handleFirstJoin rnd now clientId c msg h
                         else handleJoinedClientMessage rnd now clientId c msg h)))"

text \<open>
  \<open>fetch\<close> past the upgrade check: the accepted socket and the id \<open>crypto.randomUUID()\<close>
  returned. \<open>cleanup\<close> is the listener for \<open>close\<close> and \<open>error\<close> that \<open>fetch\<close> registers
  on that socket, with the id it was given.
\<close>

definition fetch :: "socket \<Rightarrow> string \<Rightarrow> hub \<Rightarrow> hub" where
  "fetch serverSocket clientId h =
     h\<lparr>wsToClientId := (wsToClientId h)(serverSocket \<mapsto> clientId),
       clients := (clients h)(clientId \<mapsto>
         \<lparr>cid = clientId, ws = serverSocket, app = None, room = None, meta = None\<rparr>)\<rparr>"

definition cleanup :: "socket \<Rightarrow> hub \<Rightarrow> hub" where
  "cleanup w h = (case wsToClientId h w of None \<Rightarrow> h | Some clientId \<Rightarrow> leaveRoom clientId h)"

text \<open>
  The hub after its constructor, and the events of its life: a connection accepted, a
  message received (with the random draws and the clock it will read), a socket closed.
  A handler that raises leaves the hub as it was: none of them has assigned or sent
  anything when it raises.
\<close>

definition newHub :: "rat option \<Rightarrow> hub" where
  "newHub raw = \<lparr>rooms = Map.empty, clients = Map.empty, wsToClientId = Map.empty,
                 env_MAX_ROOM_SIZE = raw, sent = []\<rparr>"

datatype event =
    Connect socket string
  | Message socket "json option" "nat \<Rightarrow> rat" nat
  | Close socket

fun step :: "event \<Rightarrow> hub \<Rightarrow> hub" where
  "step (Connect w i) h = fetch w i h"
| "step (Message w raw rnd now) h = (case handleMessage rnd now w raw h of Inl e \<Rightarrow> h | Inr h' \<Rightarrow> h')"
| "step (Close w) h = cleanup w h"

section \<open>Reachable hubs and the notions the properties are stated in\<close>

text \<open>
  Everything below this point is specification and proof: the member list of a room, the
  messages a loop of sends leaves in the log, the hubs the program can reach, the
  invariants of such hubs, and two concrete sessions (a small one, and a room filled to
  ten thousand) on which the theorems are instantiated.
\<close>

text \<open>
  The entries a loop \<open>for (peerId of ps) { peer = clients.get(peerId); if (!peer) continue;
  wsJson(peer.ws, payload) }\<close> appends to the log of sent messages.
\<close>

definition sendsTo :: "(string \<rightharpoonup> client) \<Rightarrow> string list \<Rightarrow> json \<Rightarrow> (socket \<times> json) list" where
  "sendsTo cs ps payload = List.map_filter (\<lambda>p. map_option (\<lambda>peer. (ws peer, payload)) (cs p)) ps"

text \<open>The client record after the three assignments of a successful join.\<close>

definition joinedClient :: "client \<Rightarrow> string \<Rightarrow> string \<Rightarrow> meta \<Rightarrow> client" where
  "joinedClient c a r m = c\<lparr>app := Some a, room := Some r, meta := Some m\<rparr>"

text \<open>The member list of a room, empty when the key is absent (\<open>rooms.get(key) || new Set()\<close>).\<close>

definition membersOf :: "hub \<Rightarrow> string \<Rightarrow> string list" where
  "membersOf h key = (case rooms h key of None \<Rightarrow> [] | Some ms \<Rightarrow> ms)"

text \<open>
  The runtime hands \<open>fetch\<close> a fresh socket object, and \<open>crypto.randomUUID()\<close> an id
  not given out before: a connection is admissible when its socket and its id are new. Messages
  and closes are admissible in every state, whatever their content.
\<close>

fun admissible :: "event \<Rightarrow> hub \<Rightarrow> bool" where
  "admissible (Connect w i) h = (wsToClientId h w = None \<and> i \<notin> ran (wsToClientId h))"
| "admissible e h = True"

text \<open>
  The reachable hubs: a new hub, under any setting of \<open>MAX_ROOM_SIZE\<close>, and every hub an
  admissible event leads to from a reachable one.
\<close>

inductive reachable :: "hub \<Rightarrow> bool" where
  reach_new: "reachable (newHub raw)"
| reach_step: "reachable h \<Longrightarrow> admissible e h \<Longrightarrow> reachable (step e h)"

text \<open>
  The invariant of the two registries. A registered client is stored under its own id and
  is either not joined (no application, room or metadata) or joined to a room that lists
  it, under validated names and a non-empty display name. A stored room is non-empty, has
  no duplicates, is not over the maximum, and lists only clients joined to it.
\<close>

definition client_inv :: "hub \<Rightarrow> string \<Rightarrow> client \<Rightarrow> bool" where
  "client_inv h k c =
     (cid c = k \<and>
      ((app c = None \<and> room c = None \<and> meta c = None) \<or>
       (k \<noteq> [] \<and>
        (\<exists>a r m ms. app c = Some a \<and> room c = Some r \<and> meta c = Some m \<and>
           validChannelString a \<and> validChannelString r \<and> name m \<noteq> [] \<and>
           rooms h (roomKey a r) = Some ms \<and> k \<in> set ms))))"

definition room_inv :: "hub \<Rightarrow> string \<Rightarrow> string list \<Rightarrow> bool" where
  "room_inv h key ms =
     (ms \<noteq> [] \<and> distinct ms \<and> length ms \<le> maxRoomSize h \<and>
      (\<forall>i\<in>set ms. \<exists>c a r. clients h i = Some c \<and> app c = Some a \<and> room c = Some r \<and> roomKey a r = key))"

definition hub_inv :: "hub \<Rightarrow> bool" where
  "hub_inv h =
     ((\<forall>k c. clients h k = Some c \<longrightarrow> client_inv h k c) \<and>
      (\<forall>key ms. rooms h key = Some ms \<longrightarrow> room_inv h key ms))"

text \<open>
  What a handler may do to the registries: nothing (\<open>same_regs\<close>), replace the metadata
  of one client (\<open>patchEffect\<close>), or insert one client into a room below the maximum
  (\<open>joinEffect\<close>).
\<close>

definition same_regs :: "hub \<Rightarrow> hub \<Rightarrow> bool" where
  "same_regs h' h =
     (rooms h' = rooms h \<and> clients h' = clients h \<and> wsToClientId h' = wsToClientId h \<and>
      env_MAX_ROOM_SIZE h' = env_MAX_ROOM_SIZE h)"

text \<open>The metadata a patch leaves, when the conversion of its name does not raise.\<close>

definition patched :: "(nat \<Rightarrow> rat) \<Rightarrow> nat \<Rightarrow> hub \<Rightarrow> client \<Rightarrow> json \<Rightarrow> string \<Rightarrow> meta" where
  "patched rnd now h c p n =
     \<lparr>name = (if hasOwnProperty p ''name''
              then uniqueName rnd now h n (roomKey (tmpl (app c)) (tmpl (room c))) (Some (cid c))
              else (case meta c of None \<Rightarrow> ''Player'' | Some m \<Rightarrow> name m)),
      status = (if hasOwnProperty p ''status'' then normalizePresenceStatus (getProp p ''status'')
                else (case meta c of None \<Rightarrow> ''lobby'' | Some m \<Rightarrow> status m))\<rparr>"

definition patchEffect :: "(nat \<Rightarrow> rat) \<Rightarrow> nat \<Rightarrow> hub \<Rightarrow> string \<Rightarrow> client \<Rightarrow> hub \<Rightarrow> bool" where
  "patchEffect rnd now h k c h' =
     (\<exists>p n. isObject (Some p) \<and>
        rooms h' = rooms h \<and> clients h' = (clients h)(k \<mapsto> c\<lparr>meta := Some (patched rnd now h c p n)\<rparr>) \<and>
        wsToClientId h' = wsToClientId h \<and> env_MAX_ROOM_SIZE h' = env_MAX_ROOM_SIZE h)"

definition joinEffect :: "(nat \<Rightarrow> rat) \<Rightarrow> nat \<Rightarrow> hub \<Rightarrow> string \<Rightarrow> client \<Rightarrow> hub \<Rightarrow> bool" where
  "joinEffect rnd now h k c h' =
     (\<exists>a r nm m. validChannelString a \<and> validChannelString r \<and>
        length (membersOf h (roomKey a r)) < maxRoomSize h \<and>
        m = nm\<lparr>name := uniqueName rnd now h (name nm) (roomKey a r) (Some (cid c))\<rparr> \<and>
        rooms h' = (rooms h)(roomKey a r \<mapsto> setAdd (cid c) (membersOf h (roomKey a r))) \<and>
        clients h' = (clients h)(k \<mapsto> joinedClient c a r m) \<and>
        wsToClientId h' = wsToClientId h \<and> env_MAX_ROOM_SIZE h' = env_MAX_ROOM_SIZE h)"

text \<open>
  Sockets and ids correspond: a registered client is found from its socket, and the socket
  an id was issued on is the socket of the client registered under that id.
\<close>

definition sock_inv :: "hub \<Rightarrow> bool" where
  "sock_inv h =
     ((\<forall>k c. clients h k = Some c \<longrightarrow> wsToClientId h (ws c) = Some k) \<and>
      (\<forall>w k c. wsToClientId h w = Some k \<and> clients h k = Some c \<longrightarrow> ws c = w))"

text \<open>
  A small session: A and B join room \<open>r1\<close> of \<open>demo\<close>, B asking for the name
  \<open>player\<close>; C joins room \<open>r2\<close>; D connects and has not joined yet.
\<close>

fun admissibleTrace :: "event list \<Rightarrow> hub \<Rightarrow> bool" where
  "admissibleTrace [] h = True"
| "admissibleTrace (e # es) h = (admissible e h \<and> admissibleTrace es (step e h))"

definition joinMsg :: "string \<Rightarrow> string \<Rightarrow> (string \<times> json) list \<Rightarrow> json" where
  "joinMsg a r extra = JObj ([(''type'', JStr ''join''), (''app'', JStr a), (''room'', JStr r)] @ extra)"

definition demoTrace :: "event list" where
  "demoTrace =
     [Connect 1 ''A'', Message 1 (Some (joinMsg ''demo'' ''r1'' [])) (\<lambda>i. 1 / 2) 0,
      Connect 2 ''B'',
      Message 2 (Some (joinMsg ''demo'' ''r1'' [(''meta'', JObj [(''name'', JStr ''player'')])])) (\<lambda>i. 1 / 2) 0,
      Connect 3 ''C'', Message 3 (Some (joinMsg ''demo'' ''r2'' [])) (\<lambda>i. 1 / 2) 0,
      Connect 4 ''D'']"

definition demoHub :: hub where
  "demoHub = fold step demoTrace (newHub None)"

text \<open>The messages the instances below send.\<close>

definition signalTo :: "json \<Rightarrow> json" where
  "signalTo t = JObj [(''type'', JStr ''signal''), (''to'', t), (''signal'', JStr ''sdp'')]"

definition joinNamed :: "string \<Rightarrow> string \<Rightarrow> json \<Rightarrow> json" where
  "joinNamed a r n = joinMsg a r [(''meta'', JObj [(''name'', n)])]"

definition setMetaMsg :: "json \<Rightarrow> json" where
  "setMetaMsg p = JObj [(''type'', JStr ''set-meta''), (''patch'', p)]"

text \<open>The lower-cased display names of the members of a room, one member excluded.\<close>

definition namesInRoom :: "hub \<Rightarrow> string \<Rightarrow> string option \<Rightarrow> string set" where
  "namesInRoom h key excludeId =
     {toLowerCase (name m) | i c m.
        i \<in> set (membersOf h key) \<and> Some i \<noteq> excludeId \<and> clients h i = Some c \<and> meta c = Some m}"

text \<open>
  Within every room, any two distinct members have display names that differ when
  lower-cased.
\<close>

definition names_unique :: "hub \<Rightarrow> bool" where
  "names_unique h =
     (\<forall>key ms i j ci cj mi mj.
        rooms h key = Some ms \<and> i \<in> set ms \<and> j \<in> set ms \<and> i \<noteq> j \<and>
        clients h i = Some ci \<and> clients h j = Some cj \<and> meta ci = Some mi \<and> meta cj = Some mj
        \<longrightarrow> toLowerCase (name mi) \<noteq> toLowerCase (name mj))"

text \<open>
  A hub with the maximum set to 10000: the clients 1 to \<open>n\<close> connect one after the other,
  client \<open>i\<close> on socket \<open>i\<close> with the id that prints \<open>i\<close>, and each joins the room
  \<open>r1\<close> of \<open>demo\<close> under a name of its own, \<open>p\<close> for the first and \<open>p2\<close>, \<open>p3\<close>, ... for
  the others.
\<close>

definition crowdName :: "nat \<Rightarrow> string" where
  "crowdName i = (if i = 1 then ''p'' else ''p'' @ natToString i)"

definition crowdJoin :: "nat \<Rightarrow> event list" where
  "crowdJoin i =
     [Connect i (natToString i),
      Message i (Some (joinNamed ''demo'' ''r1'' (JStr (crowdName i)))) (\<lambda>j. 0) 0]"

fun crowdRun :: "nat \<Rightarrow> hub" where
  "crowdRun 0 = newHub (Some 10000)"
| "crowdRun (Suc n) = fold step (crowdJoin (Suc n)) (crowdRun n)"

text \<open>
  Then one more client connects and asks for the name \<open>p\<close> while the clock reads 5.
\<close>

definition lateJoin :: "event list" where
  "lateJoin =
     [Connect 0 (natToString 0),
      Message 0 (Some (joinNamed ''demo'' ''r1'' (JStr ''p''))) (\<lambda>j. 0) 5]"

text \<open>The state after the first \<open>n\<close> of these joins.\<close>

definition crowdIds :: "nat \<Rightarrow> string list" where
  "crowdIds n = map natToString [1..<Suc n]"

definition crowdState :: "nat \<Rightarrow> hub \<Rightarrow> bool" where
  "crowdState n h =
     (reachable h \<and> env_MAX_ROOM_SIZE h = Some 10000 \<and>
      membersOf h (roomKey ''demo'' ''r1'') = crowdIds n \<and>
      (\<forall>i. 1 \<le> i \<and> i \<le> n \<longrightarrow>
         (\<exists>c. clients h (natToString i) = Some c \<and> meta c = Some \<lparr>name = crowdName i, status = ''lobby''\<rparr>)) \<and>
      (\<forall>k. k \<notin> natToString ` {1..n} \<longrightarrow> clients h k = None) \<and>
      wsToClientId h = (\<lambda>w. if 1 \<le> w \<and> w \<le> n then Some (natToString w) else None))"

section \<open>Properties\<close>

text \<open>
  Each property is stated for the functions of \<^verbatim>\<open>src/worker.js\<close> as embedded above, and
  instantiated on a concrete input after its proof.
\<close>

section \<open>The room key is injective on validated names\<close>

lemma channelChar_not_colon: "channelChar c \<Longrightarrow> c \<noteq> CHR '':''"
  by (auto simp: channelChar_def)

lemma valid_no_colon: "validChannelString s \<Longrightarrow> CHR '':'' \<notin> set s"
  using channelChar_not_colon by (auto simp: validChannelString_def list_all_iff)

lemma takeWhile_roomKey:
  "CHR '':'' \<notin> set a \<Longrightarrow> takeWhile (\<lambda>c. c \<noteq> CHR '':'') (roomKey a r) = a"
  by (induction a) (auto simp: roomKey_def)

lemma roomKey_inj_no_colon:
  assumes "CHR '':'' \<notin> set a1" and "CHR '':'' \<notin> set a2" and "roomKey a1 r1 = roomKey a2 r2"
  shows "a1 = a2 \<and> r1 = r2"
proof -
  have "takeWhile (\<lambda>c. c \<noteq> CHR '':'') (roomKey a1 r1) = a1"
    using assms(1) by (rule takeWhile_roomKey)
  moreover have "takeWhile (\<lambda>c. c \<noteq> CHR '':'') (roomKey a2 r2) = a2"
    using assms(2) by (rule takeWhile_roomKey)
  ultimately have "a1 = a2" using assms(3) by simp
  with assms(3) show ?thesis by (simp add: roomKey_def)
qed

text \<open>
  Claim C9. For all strings app1, room1, app2, room2 that each satisfy
  \<open>validChannelName\<close>, equal room keys imply equal applications and equal rooms: the
  separator \<open>::\<close> cannot be produced by the validated character class.
\<close>

theorem roomKey_injective:
  assumes "validChannelName (Some (JStr app1))" and "validChannelName (Some (JStr room1))"
    and "validChannelName (Some (JStr app2))" and "validChannelName (Some (JStr room2))"
    and "roomKey app1 room1 = roomKey app2 room2"
  shows "app1 = app2 \<and> room1 = room2"
  using assms roomKey_inj_no_colon [of app1 app2 room1 room2] valid_no_colon by simp

theorem roomKey_injective_witness:
  "validChannelName (Some (JStr ''demo'')) \<and> validChannelName (Some (JStr ''r1''))
   \<and> roomKey ''demo'' ''r1'' = ''demo::r1''
   \<and> (''demo'' = ''demo'' \<and> ''r1'' = ''r1'')"
  using roomKey_injective [of "''demo''" "''r1''" "''demo''" "''r1''"]
  by (simp add: validChannelString_def channelChar_def roomKey_def)


lemma wsJson_fields [simp]:
  "rooms (wsJson w p h) = rooms h"
  "clients (wsJson w p h) = clients h"
  "wsToClientId (wsJson w p h) = wsToClientId h"
  "env_MAX_ROOM_SIZE (wsJson w p h) = env_MAX_ROOM_SIZE h"
  "sent (wsJson w p h) = sent h @ [(w, p)]"
  by (simp_all add: wsJson_def)

lemma sendsTo_simps [simp]:
  "sendsTo cs [] payload = []"
  "sendsTo cs (p # ps) payload =
     (case cs p of None \<Rightarrow> sendsTo cs ps payload | Some peer \<Rightarrow> (ws peer, payload) # sendsTo cs ps payload)"
  by (simp_all add: sendsTo_def List.map_filter_simps split: option.splits)


lemma fold_notify:
  "fold (\<lambda>p s. case clients s p of None \<Rightarrow> s | Some peer \<Rightarrow> wsJson (ws peer) payload s) ps h
     = h\<lparr>sent := sent h @ sendsTo (clients h) ps payload\<rparr>"
proof (induction ps arbitrary: h)
  case Nil
  show ?case by simp
next
  case (Cons p ps)
  show ?case
    by (cases "clients h p") (simp_all add: Cons.IH wsJson_def)
qed

lemma fold_notify_others:
  "fold (\<lambda>p s. if p = x then s
                else (case clients s p of None \<Rightarrow> s | Some peer \<Rightarrow> wsJson (ws peer) payload s)) ps h
     = h\<lparr>sent := sent h @ sendsTo (clients h) (filter (\<lambda>p. p \<noteq> x) ps) payload\<rparr>"
proof (induction ps arbitrary: h)
  case Nil
  show ?case by simp
next
  case (Cons p ps)
  show ?case
    by (cases "clients h p") (simp_all add: Cons.IH wsJson_def)
qed

lemma leaveRoom_absent: "clients h i = None \<Longrightarrow> leaveRoom i h = h"
  by (simp add: leaveRoom_def)

lemma clients_leaveRoom: "clients (leaveRoom i h) = (clients h)(i := None)"
  by (auto simp: leaveRoom_def Let_def fold_notify split: option.splits)

lemma wsToClientId_leaveRoom: "wsToClientId (leaveRoom i h) = wsToClientId h"
  by (auto simp: leaveRoom_def Let_def fold_notify split: option.splits)

lemma cleanName_nonempty: "cleanName s \<noteq> []"
  by (simp add: cleanName_def Let_def)

lemma randomLoop_Some_nonempty: "randomLoop rnd used base i = Some x \<Longrightarrow> base \<noteq> [] \<Longrightarrow> x \<noteq> []"
proof (induction rnd used base i rule: randomLoop.induct)
  case (1 rnd used base i)
  then show ?case
    by (subst (asm) (2) randomLoop.simps) (auto split: if_splits)
qed

lemma sequentialLoop_Some_nonempty: "sequentialLoop used base n = Some x \<Longrightarrow> base \<noteq> [] \<Longrightarrow> x \<noteq> []"
proof (induction used base n rule: sequentialLoop.induct)
  case (1 used base n)
  then show ?case
    by (subst (asm) (2) sequentialLoop.simps) (auto split: if_splits)
qed

lemma uniqueName_nonempty: "uniqueName rnd now h b key ign \<noteq> []"
  using cleanName_nonempty [of b]
  by (auto simp: uniqueName_def Let_def split: option.splits
           dest: randomLoop_Some_nonempty sequentialLoop_Some_nonempty)

text \<open>Closed forms of the handlers.\<close>

lemma leaveRoom_closed:
  assumes "clients h i = Some c"
  shows "leaveRoom i h =
     (if truthy (app c) \<and> truthy (room c) then
        (case rooms h (roomKey (tmpl (app c)) (tmpl (room c))) of
           None \<Rightarrow> h\<lparr>clients := (clients h)(i := None)\<rparr>
         | Some ms \<Rightarrow>
             h\<lparr>rooms := (if removeAll i ms = [] then (rooms h)(roomKey (tmpl (app c)) (tmpl (room c)) := None)
                         else (rooms h)(roomKey (tmpl (app c)) (tmpl (room c)) \<mapsto> removeAll i ms)),
               clients := (clients h)(i := None),
               sent := sent h @ sendsTo (clients h) (removeAll i ms) (peerLeftMsg i)\<rparr>)
      else h\<lparr>clients := (clients h)(i := None)\<rparr>)"
  using assms
  by (auto simp: leaveRoom_def Let_def fold_notify setDelete_def split: option.splits)

lemma handleFirstJoin_success:
  assumes "getProp msg ''type'' = Some (JStr ''join'')"
    and "getProp msg ''app'' = Some (JStr a)" and "validChannelString a"
    and "getProp msg ''room'' = Some (JStr r)" and "validChannelString r"
    and "length (membersOf h (roomKey a r)) < maxRoomSize h"
    and "normalizeMeta (getProp msg ''meta'') = Inr nm"
    and "m = nm\<lparr>name := uniqueName rnd now h (name nm) (roomKey a r) (Some (cid c))\<rparr>"
  shows "handleFirstJoin rnd now k c msg h =
     Inr (h\<lparr>rooms := (rooms h)(roomKey a r \<mapsto> setAdd (cid c) (membersOf h (roomKey a r))),
            clients := (clients h)(k \<mapsto> joinedClient c a r m),
            sent := sent h @
              [(ws c, welcomeMsg (cid c) a r (membersOf h (roomKey a r))
                        (map (\<lambda>p. (p, (case clients h p of None \<Rightarrow> None | Some peer \<Rightarrow> meta peer)))
                           (membersOf h (roomKey a r)))
                        (Some m) (maxRoomSize h))] @
              sendsTo ((clients h)(k \<mapsto> joinedClient c a r m)) (membersOf h (roomKey a r))
                (peerJoinedMsg (cid c) (Some m))\<rparr>)"
proof -
  have nn: "msg \<noteq> JNull" using assms(1) by auto
  show ?thesis
    using assms nn
    by (simp add: handleFirstJoin_def Let_def fold_notify membersOf_def joinedClient_def wsJson_def)
qed

lemma maxRoomSize_cong: "env_MAX_ROOM_SIZE h' = env_MAX_ROOM_SIZE h \<Longrightarrow> maxRoomSize h' = maxRoomSize h"
  by (simp add: maxRoomSize_def)

lemma valid_truthy: "validChannelString a \<Longrightarrow> truthy (Some a)"
  by (auto simp: validChannelString_def)

lemma roomKey_inj_valid:
  "validChannelString a1 \<Longrightarrow> validChannelString a2 \<Longrightarrow> roomKey a1 r1 = roomKey a2 r2 \<Longrightarrow> a1 = a2 \<and> r1 = r2"
  using roomKey_inj_no_colon valid_no_colon by blast

lemma inv_unjoined:
  assumes "hub_inv h" and "clients h k = Some c" and "\<not> (truthy (app c) \<and> truthy (room c))"
  shows "cid c = k" and "app c = None" and "room c = None"
    and "\<And>key ms. rooms h key = Some ms \<Longrightarrow> k \<notin> set ms"
proof -
  have ci: "client_inv h k c" using assms(1,2) by (simp add: hub_inv_def)
  show "cid c = k" using ci by (simp add: client_inv_def)
  show a: "app c = None" using ci assms(3) valid_truthy by (auto simp: client_inv_def)
  show "room c = None" using ci assms(3) valid_truthy by (auto simp: client_inv_def)
  fix key ms assume r: "rooms h key = Some ms"
  show "k \<notin> set ms"
  proof
    assume "k \<in> set ms"
    moreover have "room_inv h key ms" using assms(1) r by (simp add: hub_inv_def)
    ultimately obtain c' a' where "clients h k = Some c'" "app c' = Some a'"
      by (auto simp: room_inv_def)
    with assms(2) a show False by simp
  qed
qed

lemma inv_joined:
  assumes "hub_inv h" and "clients h k = Some c" and "truthy (app c) \<and> truthy (room c)"
  shows "\<exists>a r m ms. cid c = k \<and> k \<noteq> [] \<and> app c = Some a \<and> room c = Some r \<and> meta c = Some m \<and>
           validChannelString a \<and> validChannelString r \<and> name m \<noteq> [] \<and>
           rooms h (roomKey a r) = Some ms \<and> k \<in> set ms"
proof -
  have ci: "client_inv h k c" using assms(1,2) by (simp add: hub_inv_def)
  then show ?thesis using assms(3) by (auto simp: client_inv_def)
qed

lemma inv_member_room:
  assumes "hub_inv h" and "rooms h key = Some ms" and "i \<in> set ms"
    and "clients h i = Some c" and "app c = Some a" and "room c = Some r"
  shows "roomKey a r = key"
proof -
  have "room_inv h key ms" using assms(1,2) by (simp add: hub_inv_def)
  then show ?thesis using assms(3-6) by (auto simp: room_inv_def)
qed

lemma hub_inv_join:
  assumes inv: "hub_inv h" and c: "clients h k = Some c" and unj: "\<not> (truthy (app c) \<and> truthy (room c))"
    and k: "k \<noteq> []" and va: "validChannelString a" and vr: "validChannelString r"
    and len: "length (membersOf h (roomKey a r)) < maxRoomSize h" and nm: "name m \<noteq> []"
    and r': "rooms h' = (rooms h)(roomKey a r \<mapsto> setAdd (cid c) (membersOf h (roomKey a r)))"
    and c': "clients h' = (clients h)(k \<mapsto> joinedClient c a r m)"
    and w': "wsToClientId h' = wsToClientId h" and e': "env_MAX_ROOM_SIZE h' = env_MAX_ROOM_SIZE h"
  shows "hub_inv h'"
proof -
  note u = inv_unjoined [OF inv c unj]
  have N: "maxRoomSize h' = maxRoomSize h" using e' by (rule maxRoomSize_cong)
  have ci: "client_inv h k c" using inv c by (simp add: hub_inv_def)
  have notin: "k \<notin> set (membersOf h (roomKey a r))"
    using u(4) by (auto simp: membersOf_def split: option.splits)
  have newms: "setAdd (cid c) (membersOf h (roomKey a r)) = membersOf h (roomKey a r) @ [k]"
    using notin u(1) by (simp add: setAdd_def)
  have clients_inv: "client_inv h' k' d" if d: "clients h' k' = Some d" for k' d
  proof (cases "k' = k")
    case True
    then have "d = joinedClient c a r m" using d c' by simp
    then show ?thesis
      using True ci k va vr nm r' w' newms by (auto simp: client_inv_def joinedClient_def)
  next
    case False
    then have old: "clients h k' = Some d" using d c' by simp
    then have cd: "client_inv h k' d" using inv by (simp add: hub_inv_def)
    show ?thesis
    proof (cases "app d")
      case None
      then show ?thesis using cd w' by (auto simp: client_inv_def)
    next
      case (Some a')
      then obtain r'' m' ms where j: "room d = Some r''" "meta d = Some m'" "validChannelString a'"
        "validChannelString r''" "name m' \<noteq> []" "rooms h (roomKey a' r'') = Some ms" "k' \<in> set ms" "k' \<noteq> []"
        using cd by (auto simp: client_inv_def)
      have "\<exists>ms'. rooms h' (roomKey a' r'') = Some ms' \<and> k' \<in> set ms'"
        using j(6,7) r' newms by (auto simp: membersOf_def)
      then show ?thesis using cd w' Some j by (auto simp: client_inv_def)
    qed
  qed
  have rooms_inv: "room_inv h' key ms" if rm: "rooms h' key = Some ms" for key ms
  proof (cases "key = roomKey a r")
    case True
    then have ms: "ms = membersOf h (roomKey a r) @ [k]" using rm r' newms by simp
    have dist: "distinct (membersOf h (roomKey a r))"
      using inv by (auto simp: membersOf_def hub_inv_def room_inv_def split: option.splits)
    have mem: "\<exists>d a' r''. clients h' i = Some d \<and> app d = Some a' \<and> room d = Some r'' \<and> roomKey a' r'' = key"
      if i: "i \<in> set ms" for i
    proof (cases "i = k")
      case True
      then show ?thesis using c' \<open>key = roomKey a r\<close> by (simp add: joinedClient_def)
    next
      case False
      then have "i \<in> set (membersOf h (roomKey a r))" using i ms by simp
      then obtain ms0 where ms0: "rooms h (roomKey a r) = Some ms0" "i \<in> set ms0"
        by (cases "rooms h (roomKey a r)") (auto simp: membersOf_def)
      then have "room_inv h (roomKey a r) ms0" using inv by (simp add: hub_inv_def)
      then show ?thesis using ms0 False c' \<open>key = roomKey a r\<close> by (auto simp: room_inv_def)
    qed
    show ?thesis
      using ms dist notin len N mem by (auto simp: room_inv_def)
  next
    case False
    then have old: "rooms h key = Some ms" using rm r' by simp
    then have ri: "room_inv h key ms" using inv by (simp add: hub_inv_def)
    have "k \<notin> set ms" using u(4) old by simp
    then show ?thesis using ri N c' by (auto simp: room_inv_def)
  qed
  show ?thesis using clients_inv rooms_inv by (simp add: hub_inv_def)
qed

lemma in_set_nonempty: "x \<in> set xs \<Longrightarrow> xs \<noteq> []"
  by auto

lemma env_leaveRoom: "env_MAX_ROOM_SIZE (leaveRoom i h) = env_MAX_ROOM_SIZE h"
  by (auto simp: leaveRoom_def Let_def fold_notify split: option.splits)

lemma rooms_leaveRoom_unjoined:
  "clients h i = Some c \<Longrightarrow> \<not> (truthy (app c) \<and> truthy (room c)) \<Longrightarrow> rooms (leaveRoom i h) = rooms h"
  by (auto simp: leaveRoom_closed)

lemma rooms_leaveRoom_joined:
  assumes "clients h i = Some c" and "app c = Some a" and "room c = Some r"
    and "validChannelString a" and "validChannelString r" and "rooms h (roomKey a r) = Some ms"
  shows "rooms (leaveRoom i h) =
           (if removeAll i ms = [] then (rooms h)(roomKey a r := None)
            else (rooms h)(roomKey a r \<mapsto> removeAll i ms))"
  using assms valid_truthy by (simp add: leaveRoom_closed)

lemma hub_inv_leaveRoom:
  assumes inv: "hub_inv h"
  shows "hub_inv (leaveRoom k h)"
proof (cases "clients h k")
  case None
  then show ?thesis using inv by (simp add: leaveRoom_absent)
next
  case (Some c)
  let ?h = "leaveRoom k h"
  have cl: "clients ?h = (clients h)(k := None)" by (rule clients_leaveRoom)
  have ws: "wsToClientId ?h = wsToClientId h" by (rule wsToClientId_leaveRoom)
  have N: "maxRoomSize ?h = maxRoomSize h" using env_leaveRoom by (rule maxRoomSize_cong)
  show ?thesis
  proof (cases "truthy (app c) \<and> truthy (room c)")
    case False
    note u = inv_unjoined [OF inv Some False]
    have rs: "rooms ?h = rooms h" using Some False by (rule rooms_leaveRoom_unjoined)
    have "client_inv ?h k' d" if "clients ?h k' = Some d" for k' d
    proof -
      have "clients h k' = Some d" using that cl by (auto split: if_splits)
      then have "client_inv h k' d" using inv by (simp add: hub_inv_def)
      then show ?thesis using rs ws by (simp add: client_inv_def)
    qed
    moreover have "room_inv ?h key ms" if "rooms ?h key = Some ms" for key ms
    proof -
      have old: "rooms h key = Some ms" using that rs by simp
      then have "room_inv h key ms" using inv by (simp add: hub_inv_def)
      moreover have "k \<notin> set ms" using u(4) old by simp
      ultimately show ?thesis using cl N by (auto simp: room_inv_def)
    qed
    ultimately show ?thesis by (simp add: hub_inv_def)
  next
    case True
    from inv_joined [OF inv Some True] obtain a r m ms where
      j: "cid c = k" "k \<noteq> []" "app c = Some a" "room c = Some r" "meta c = Some m"
         "validChannelString a" "validChannelString r" "name m \<noteq> []"
         "rooms h (roomKey a r) = Some ms" "k \<in> set ms"
      by blast
    have rs: "rooms ?h = (if removeAll k ms = [] then (rooms h)(roomKey a r := None)
                         else (rooms h)(roomKey a r \<mapsto> removeAll k ms))"
      using Some j(3,4,6,7,9) by (rule rooms_leaveRoom_joined)
    have rinv: "room_inv h (roomKey a r) ms" using inv j(9) by (simp add: hub_inv_def)
    have "client_inv ?h k' d" if d: "clients ?h k' = Some d" for k' d
    proof -
      have ne: "k' \<noteq> k" and old: "clients h k' = Some d" using d cl by (auto split: if_splits)
      have cd: "client_inv h k' d" using old inv by (simp add: hub_inv_def)
      show ?thesis
      proof (cases "app d")
        case None
        then show ?thesis using cd ws by (auto simp: client_inv_def)
      next
        case (Some a')
        then obtain r'' m' ms' where jd: "room d = Some r''" "meta d = Some m'" "validChannelString a'"
          "validChannelString r''" "name m' \<noteq> []" "rooms h (roomKey a' r'') = Some ms'" "k' \<in> set ms'" "k' \<noteq> []"
          using cd by (auto simp: client_inv_def)
        have "\<exists>ms''. rooms ?h (roomKey a' r'') = Some ms'' \<and> k' \<in> set ms''"
        proof (cases "roomKey a' r'' = roomKey a r")
          case True
          then have "ms' = ms" using jd(6) j(9) by simp
          then have in': "k' \<in> set (removeAll k ms)" using jd(7) ne by simp
          then have "removeAll k ms \<noteq> []" by (rule in_set_nonempty)
          then show ?thesis using rs True in' by simp
        next
          case False
          then show ?thesis using rs jd(6,7) by auto
        qed
        then show ?thesis using cd ws Some jd by (auto simp: client_inv_def)
      qed
    qed
    moreover have "room_inv ?h key ms'" if rm: "rooms ?h key = Some ms'" for key ms'
    proof (cases "key = roomKey a r")
      case True
      then have ms': "ms' = removeAll k ms" "removeAll k ms \<noteq> []"
        using rm rs by (auto split: if_splits)
      have "length ms \<le> maxRoomSize h" using rinv by (simp add: room_inv_def)
      then have "length (removeAll k ms) \<le> maxRoomSize h"
        by (rule le_trans [OF length_removeAll_less_eq])
      then show ?thesis
        using rinv ms' True cl N by (auto simp: room_inv_def distinct_removeAll)
    next
      case False
      then have old: "rooms h key = Some ms'" using rm rs by (auto split: if_splits)
      then have ri: "room_inv h key ms'" using inv by (simp add: hub_inv_def)
      have "k \<notin> set ms'"
      proof
        assume "k \<in> set ms'"
        then have "roomKey a r = key" using inv_member_room [OF inv old _ Some j(3,4)] by simp
        then show False using False by simp
      qed
      then show ?thesis using ri cl N by (auto simp: room_inv_def)
    qed
    ultimately show ?thesis by (simp add: hub_inv_def)
  qed
qed

lemma hub_inv_setMeta:
  assumes inv: "hub_inv h" and c: "clients h k = Some c" and j: "truthy (app c) \<and> truthy (room c)"
    and nm: "name m \<noteq> []"
    and r': "rooms h' = rooms h" and c': "clients h' = (clients h)(k \<mapsto> c\<lparr>meta := Some m\<rparr>)"
    and w': "wsToClientId h' = wsToClientId h" and e': "env_MAX_ROOM_SIZE h' = env_MAX_ROOM_SIZE h"
  shows "hub_inv h'"
proof -
  have N: "maxRoomSize h' = maxRoomSize h" using e' by (rule maxRoomSize_cong)
  have "client_inv h' k' d" if d: "clients h' k' = Some d" for k' d
  proof (cases "k' = k")
    case True
    then have "d = c\<lparr>meta := Some m\<rparr>" using d c' by simp
    moreover have "client_inv h k c" using inv c by (simp add: hub_inv_def)
    ultimately show ?thesis using True j nm r' w' by (auto simp: client_inv_def)
  next
    case False
    then have "clients h k' = Some d" using d c' by simp
    then have "client_inv h k' d" using inv by (simp add: hub_inv_def)
    then show ?thesis using r' w' by (simp add: client_inv_def)
  qed
  moreover have "room_inv h' key ms" if "rooms h' key = Some ms" for key ms
  proof -
    have "room_inv h key ms" using that r' inv by (simp add: hub_inv_def)
    then show ?thesis using c' N c by (auto simp: room_inv_def)
  qed
  ultimately show ?thesis by (simp add: hub_inv_def)
qed

lemma hub_inv_fetch:
  assumes inv: "hub_inv h" and none: "clients h i = None"
  shows "hub_inv (fetch w i h)"
proof -
  let ?h = "fetch w i h"
  have N: "maxRoomSize ?h = maxRoomSize h" by (rule maxRoomSize_cong) (simp add: fetch_def)
  have "client_inv ?h k d" if d: "clients ?h k = Some d" for k d
  proof (cases "k = i")
    case True
    then show ?thesis using d by (auto simp: fetch_def client_inv_def)
  next
    case False
    then have "clients h k = Some d" using d by (simp add: fetch_def)
    then have cd: "client_inv h k d" using inv by (simp add: hub_inv_def)
    then show ?thesis by (auto simp: fetch_def client_inv_def)
  qed
  moreover have "room_inv ?h key ms" if "rooms ?h key = Some ms" for key ms
  proof -
    have old: "rooms h key = Some ms" using that by (simp add: fetch_def)
    then have ri: "room_inv h key ms" using inv by (simp add: hub_inv_def)
    have "i \<notin> set ms" using ri none by (auto simp: room_inv_def)
    then show ?thesis using ri N by (auto simp: fetch_def room_inv_def)
  qed
  ultimately show ?thesis by (simp add: hub_inv_def)
qed

lemma same_regs_wsJson [simp]: "same_regs (wsJson w p h) h"
  by (simp add: same_regs_def)

lemma same_regs_refl [simp]: "same_regs h h"
  by (simp add: same_regs_def)

lemma hub_inv_same_regs: "same_regs h' h \<Longrightarrow> hub_inv h \<Longrightarrow> hub_inv h'"
  by (simp add: same_regs_def hub_inv_def client_inv_def room_inv_def maxRoomSize_def)

lemma validChannelName_iff: "validChannelName v = (\<exists>s. v = Some (JStr s) \<and> validChannelString s)"
  by (cases v rule: validChannelName.cases) simp_all

lemma relayPeerMeta_closed:
  "relayPeerMeta c b h =
     (if \<not> truthy (app c) \<or> \<not> truthy (room c) then h
      else (case rooms h (roomKey (tmpl (app c)) (tmpl (room c))) of
              None \<Rightarrow> h
            | Some ms \<Rightarrow>
                h\<lparr>sent := sent h @ (if b then [(ws c, metaUpdatedMsg (cid c) (meta c))] else []) @
                     sendsTo (clients h) (filter (\<lambda>p. p \<noteq> cid c) ms) (peerMetaMsg (cid c) (meta c))\<rparr>))"
  by (auto simp: relayPeerMeta_def Let_def fold_notify_others wsJson_def split: option.splits)

lemma same_regs_relayPeerMeta: "same_regs (relayPeerMeta c b h) h"
  by (auto simp: relayPeerMeta_closed same_regs_def split: option.splits)

lemma same_regs_relayAddressed: "same_regs (relayAddressed kind field c msg h) h"
  by (auto simp: relayAddressed_def split: option.splits json.splits)

lemma broadcast_closed:
  "broadcast c msg h =
     (case rooms h (roomKey (tmpl (app c)) (tmpl (room c))) of
        None \<Rightarrow> h
      | Some ms \<Rightarrow>
          h\<lparr>sent := sent h @ sendsTo (clients h) (filter (\<lambda>p. p \<noteq> cid c) ms)
                               (relayMsg ''broadcast'' ''payload'' (cid c) msg)\<rparr>)"
  by (auto simp: broadcast_def fold_notify_others split: option.splits)

lemma same_regs_broadcast: "same_regs (broadcast c msg h) h"
  by (auto simp: broadcast_closed same_regs_def split: option.splits)

lemma handleSetMeta_success:
  assumes "isObject (Some p)"
    and "hasOwnProperty p ''name'' \<Longrightarrow> normalizeDisplayName (getProp p ''name'') = Inr n"
  shows "handleSetMeta rnd now k c (Some p) h =
           Inr (relayPeerMeta (c\<lparr>meta := Some (patched rnd now h c p n)\<rparr>) True
                  (h\<lparr>clients := (clients h)(k \<mapsto> c\<lparr>meta := Some (patched rnd now h c p n)\<rparr>)\<rparr>))"
  using assms by (auto simp: handleSetMeta_def Let_def patched_def)

lemma handleSetMeta_raises:
  assumes "isObject (Some p)" and "hasOwnProperty p ''name''"
    and "normalizeDisplayName (getProp p ''name'') = Inl e"
  shows "handleSetMeta rnd now k c (Some p) h = Inl e"
  using assms by (auto simp: handleSetMeta_def Let_def)

lemma handleSetMeta_invalid:
  assumes "\<not> isObject patch"
  shows "handleSetMeta rnd now k c patch h = Inr (wsJson (ws c) (errorMsg ''invalid-meta-patch'' []) h)"
  using assms by (auto simp: handleSetMeta_def split: option.splits)

lemma handleSetMeta_cases:
  assumes "handleSetMeta rnd now k c patch h = Inr h'"
  shows "same_regs h' h \<or> patchEffect rnd now h k c h'"
proof (cases "isObject patch")
  case False
  then show ?thesis using assms by (auto simp: handleSetMeta_invalid)
next
  case True
  then obtain p where p: "patch = Some p" by (cases patch) auto
  have eff: "patchEffect rnd now h k c h'"
    if "handleSetMeta rnd now k c (Some p) h =
           Inr (relayPeerMeta (c\<lparr>meta := Some (patched rnd now h c p n)\<rparr>) True
                  (h\<lparr>clients := (clients h)(k \<mapsto> c\<lparr>meta := Some (patched rnd now h c p n)\<rparr>)\<rparr>))" for n
  proof -
    have "h' = relayPeerMeta (c\<lparr>meta := Some (patched rnd now h c p n)\<rparr>) True
                  (h\<lparr>clients := (clients h)(k \<mapsto> c\<lparr>meta := Some (patched rnd now h c p n)\<rparr>)\<rparr>)"
      using assms p that by simp
    then show ?thesis
      using same_regs_relayPeerMeta [of "c\<lparr>meta := Some (patched rnd now h c p n)\<rparr>" True
              "h\<lparr>clients := (clients h)(k \<mapsto> c\<lparr>meta := Some (patched rnd now h c p n)\<rparr>)\<rparr>"] p True
      by (auto simp: same_regs_def patchEffect_def)
  qed
  show ?thesis
  proof (cases "hasOwnProperty p ''name''")
    case False
    then have "handleSetMeta rnd now k c (Some p) h =
           Inr (relayPeerMeta (c\<lparr>meta := Some (patched rnd now h c p [])\<rparr>) True
                  (h\<lparr>clients := (clients h)(k \<mapsto> c\<lparr>meta := Some (patched rnd now h c p [])\<rparr>)\<rparr>))"
      using True p by (intro handleSetMeta_success) auto
    then show ?thesis using eff by blast
  next
    case has: True
    show ?thesis
    proof (cases "normalizeDisplayName (getProp p ''name'')")
      case (Inl e)
      then show ?thesis using assms p True has by (simp add: handleSetMeta_raises)
    next
      case (Inr n)
      then have "handleSetMeta rnd now k c (Some p) h =
           Inr (relayPeerMeta (c\<lparr>meta := Some (patched rnd now h c p n)\<rparr>) True
                  (h\<lparr>clients := (clients h)(k \<mapsto> c\<lparr>meta := Some (patched rnd now h c p n)\<rparr>)\<rparr>))"
        using True p by (intro handleSetMeta_success) auto
      then show ?thesis using eff by blast
    qed
  qed
qed

lemma handleJoined_cases:
  assumes "handleJoinedClientMessage rnd now k c msg h = Inr h'"
  shows "same_regs h' h \<or> patchEffect rnd now h k c h'"
proof (cases "msg \<noteq> JNull \<and> getProp msg ''type'' = Some (JStr ''set-meta'')")
  case True
  then have "handleSetMeta rnd now k c (getProp msg ''patch'') h = Inr h'"
    using assms by (simp add: handleJoinedClientMessage_def)
  then show ?thesis by (rule handleSetMeta_cases)
next
  case False
  then have "same_regs h' h"
    using assms same_regs_relayAddressed same_regs_broadcast
    by (auto simp: handleJoinedClientMessage_def split: if_splits)
  then show ?thesis by simp
qed

lemma handleFirstJoin_cases:
  assumes "handleFirstJoin rnd now k c msg h = Inr h'"
  shows "same_regs h' h \<or> joinEffect rnd now h k c h'"
proof (cases "msg \<noteq> JNull \<and> getProp msg ''type'' = Some (JStr ''join'') \<and>
              validChannelName (getProp msg ''app'') \<and> validChannelName (getProp msg ''room'')")
  case False
  then have "same_regs h' h" using assms by (auto simp: handleFirstJoin_def split: if_splits)
  then show ?thesis by simp
next
  case True
  then obtain a r where ar: "getProp msg ''app'' = Some (JStr a)" "validChannelString a"
      "getProp msg ''room'' = Some (JStr r)" "validChannelString r"
    by (auto simp: validChannelName_iff)
  show ?thesis
  proof (cases "length (membersOf h (roomKey a r)) < maxRoomSize h")
    case False
    then have "same_regs h' h"
      using assms True ar by (auto simp: handleFirstJoin_def membersOf_def Let_def split: if_splits)
    then show ?thesis by simp
  next
    case len: True
    show ?thesis
    proof (cases "normalizeMeta (getProp msg ''meta'')")
      case (Inl e)
      then show ?thesis
        using assms True ar len by (auto simp: handleFirstJoin_def membersOf_def Let_def split: if_splits)
    next
      case (Inr nm)
      define m where "m = nm\<lparr>name := uniqueName rnd now h (name nm) (roomKey a r) (Some (cid c))\<rparr>"
      have t: "getProp msg ''type'' = Some (JStr ''join'')" using True by simp
      from handleFirstJoin_success [OF t ar len Inr m_def, of k] assms
      have "rooms h' = (rooms h)(roomKey a r \<mapsto> setAdd (cid c) (membersOf h (roomKey a r)))"
        and "clients h' = (clients h)(k \<mapsto> joinedClient c a r m)"
        and "wsToClientId h' = wsToClientId h" and "env_MAX_ROOM_SIZE h' = env_MAX_ROOM_SIZE h"
        by auto
      then have "joinEffect rnd now h k c h'"
        unfolding joinEffect_def using ar(2,4) len m_def by blast
      then show ?thesis by simp
    qed
  qed
qed

text \<open>What a message does to the registries: nothing, a join, or a patch of the sender's meta.\<close>

lemma handleMessage_cases:
  assumes "handleMessage rnd now w raw h = Inr h'"
  shows "same_regs h' h
       \<or> (\<exists>k c. k \<noteq> [] \<and> clients h k = Some c \<and> \<not> (truthy (app c) \<and> truthy (room c)) \<and>
                 joinEffect rnd now h k c h')
       \<or> (\<exists>k c. k \<noteq> [] \<and> clients h k = Some c \<and> (truthy (app c) \<and> truthy (room c)) \<and>
                 patchEffect rnd now h k c h')"
proof (cases "\<exists>k c msg. wsToClientId h w = Some k \<and> k \<noteq> [] \<and> clients h k = Some c \<and> raw = Some msg")
  case False
  then have "same_regs h' h"
    using assms by (auto simp: handleMessage_def split: option.splits if_splits)
  then show ?thesis by simp
next
  case True
  then obtain k c msg where kc: "wsToClientId h w = Some k" "k \<noteq> []" "clients h k = Some c" "raw = Some msg"
    by blast
  show ?thesis
  proof (cases "truthy (app c) \<and> truthy (room c)")
    case False
    then have "handleFirstJoin rnd now k c msg h = Inr h'"
      using assms kc by (auto simp: handleMessage_def)
    from handleFirstJoin_cases [OF this] show ?thesis using kc False by blast
  next
    case True
    then have "handleJoinedClientMessage rnd now k c msg h = Inr h'"
      using assms kc by (auto simp: handleMessage_def)
    from handleJoined_cases [OF this] show ?thesis using kc True by blast
  qed
qed

lemma hub_inv_joinEffect:
  assumes "hub_inv h" and "clients h k = Some c" and "\<not> (truthy (app c) \<and> truthy (room c))"
    and "k \<noteq> []" and "joinEffect rnd now h k c h'"
  shows "hub_inv h'"
proof -
  from assms(5) obtain a r nm m where e: "validChannelString a" "validChannelString r"
        "length (membersOf h (roomKey a r)) < maxRoomSize h"
        "m = nm\<lparr>name := uniqueName rnd now h (name nm) (roomKey a r) (Some (cid c))\<rparr>"
        "rooms h' = (rooms h)(roomKey a r \<mapsto> setAdd (cid c) (membersOf h (roomKey a r)))"
        "clients h' = (clients h)(k \<mapsto> joinedClient c a r m)"
        "wsToClientId h' = wsToClientId h" "env_MAX_ROOM_SIZE h' = env_MAX_ROOM_SIZE h"
    unfolding joinEffect_def by blast
  have "name m \<noteq> []" using e(4) by (simp add: uniqueName_nonempty)
  then show ?thesis using hub_inv_join [OF assms(1-4) e(1-3) _ e(5-8)] by blast
qed

lemma hub_inv_patchEffect:
  assumes "hub_inv h" and "clients h k = Some c" and "truthy (app c) \<and> truthy (room c)"
    and "patchEffect rnd now h k c h'"
  shows "hub_inv h'"
proof -
  from assms(4) obtain p n where pn: "rooms h' = rooms h"
        "clients h' = (clients h)(k \<mapsto> c\<lparr>meta := Some (patched rnd now h c p n)\<rparr>)"
        "wsToClientId h' = wsToClientId h" "env_MAX_ROOM_SIZE h' = env_MAX_ROOM_SIZE h"
    unfolding patchEffect_def by blast
  from inv_joined [OF assms(1-3)] obtain m0 where "meta c = Some m0" "name m0 \<noteq> []" by blast
  then have "name (patched rnd now h c p n) \<noteq> []"
    by (simp add: patched_def uniqueName_nonempty)
  then show ?thesis using hub_inv_setMeta [OF assms(1-3) _ pn] by blast
qed

lemma hub_inv_handleMessage:
  assumes inv: "hub_inv h" and res: "handleMessage rnd now w raw h = Inr h'"
  shows "hub_inv h'"
  using handleMessage_cases [OF res] inv
  by (auto intro: hub_inv_same_regs hub_inv_joinEffect hub_inv_patchEffect)

lemma hub_inv_newHub: "hub_inv (newHub raw)"
  by (simp add: hub_inv_def newHub_def)

lemma sock_inv_same_regs: "same_regs h' h \<Longrightarrow> sock_inv h \<Longrightarrow> sock_inv h'"
  by (simp add: same_regs_def sock_inv_def)

lemma sock_inv_upd:
  assumes "sock_inv h" and "clients h k = Some c" and "ws c' = ws c"
    and "clients h' = (clients h)(k \<mapsto> c')" and "wsToClientId h' = wsToClientId h"
  shows "sock_inv h'"
  using assms by (auto simp: sock_inv_def)

lemma sock_inv_handleMessage:
  assumes "sock_inv h" and "handleMessage rnd now w raw h = Inr h'"
  shows "sock_inv h'"
proof -
  from handleMessage_cases [OF assms(2)] show ?thesis
  proof (elim disjE exE conjE)
    assume "same_regs h' h"
    then show ?thesis using assms(1) by (rule sock_inv_same_regs)
  next
    fix k c assume c: "clients h k = Some c" and "joinEffect rnd now h k c h'"
    then obtain a r m where "clients h' = (clients h)(k \<mapsto> joinedClient c a r m)"
        "wsToClientId h' = wsToClientId h"
      unfolding joinEffect_def by blast
    then show ?thesis using sock_inv_upd [OF assms(1) c, of "joinedClient c a r m" h']
      by (simp add: joinedClient_def)
  next
    fix k c assume c: "clients h k = Some c" and "patchEffect rnd now h k c h'"
    then obtain p n where "clients h' = (clients h)(k \<mapsto> c\<lparr>meta := Some (patched rnd now h c p n)\<rparr>)"
        "wsToClientId h' = wsToClientId h"
      unfolding patchEffect_def by blast
    then show ?thesis
      using sock_inv_upd [OF assms(1) c, of "c\<lparr>meta := Some (patched rnd now h c p n)\<rparr>" h'] by simp
  qed
qed

lemma sock_inv_leaveRoom: "sock_inv h \<Longrightarrow> sock_inv (leaveRoom k h)"
  by (auto simp: sock_inv_def clients_leaveRoom wsToClientId_leaveRoom split: if_splits)

lemma sock_inv_fetch:
  assumes "sock_inv h" and "wsToClientId h w = None" and "i \<notin> ran (wsToClientId h)"
  shows "sock_inv (fetch w i h)"
proof -
  have a: "wsToClientId h w' \<noteq> Some i" for w' using assms(3) by (auto simp: ran_def)
  have b: "ws c \<noteq> w" if "clients h k = Some c" for k c
    using assms(1,2) that by (auto simp: sock_inv_def)
  show ?thesis
    unfolding sock_inv_def fetch_def using assms(1) a b by (auto simp: sock_inv_def)
qed

lemma fresh_id_absent:
  assumes "sock_inv h" and "i \<notin> ran (wsToClientId h)"
  shows "clients h i = None"
proof (cases "clients h i")
  case (Some c)
  then have "wsToClientId h (ws c) = Some i" using assms(1) by (simp add: sock_inv_def)
  then show ?thesis using assms(2) by (auto simp: ran_def)
qed simp

lemma sock_inv_step:
  assumes "sock_inv h" and "admissible e h"
  shows "sock_inv (step e h)"
proof (cases e)
  case (Connect w i)
  then show ?thesis using assms sock_inv_fetch by simp
next
  case (Message w raw rnd now)
  then show ?thesis using assms sock_inv_handleMessage by (auto split: sum.splits)
next
  case (Close w)
  then show ?thesis using assms sock_inv_leaveRoom by (auto simp: cleanup_def split: option.splits)
qed

lemma hub_inv_step:
  assumes "hub_inv h" and "sock_inv h" and "admissible e h"
  shows "hub_inv (step e h)"
proof (cases e)
  case (Connect w i)
  then have "clients h i = None" using assms(2,3) fresh_id_absent by simp
  then show ?thesis using Connect assms(1) hub_inv_fetch by simp
next
  case (Message w raw rnd now)
  then show ?thesis using assms hub_inv_handleMessage by (auto split: sum.splits)
next
  case (Close w)
  then show ?thesis using assms hub_inv_leaveRoom by (auto simp: cleanup_def split: option.splits)
qed

lemma reachable_invs: "reachable h \<Longrightarrow> hub_inv h \<and> sock_inv h"
proof (induction rule: reachable.induct)
  case (reach_new raw)
  show ?case by (simp add: hub_inv_newHub) (simp add: sock_inv_def newHub_def)
next
  case (reach_step h e)
  then show ?case using hub_inv_step sock_inv_step by blast
qed

lemma reachable_inv: "reachable h \<Longrightarrow> hub_inv h"
  using reachable_invs by blast

lemma reachable_sock: "reachable h \<Longrightarrow> sock_inv h"
  using reachable_invs by blast

lemma reachable_own_socket:
  "reachable h \<Longrightarrow> wsToClientId h w = Some k \<Longrightarrow> clients h k = Some c \<Longrightarrow> ws c = w \<and> cid c = k"
  using reachable_invs [of h] by (auto simp: sock_inv_def hub_inv_def client_inv_def)

lemma wsToClientId_step:
  "wsToClientId (step e h) = (case e of Connect w i \<Rightarrow> (wsToClientId h)(w \<mapsto> i) | _ \<Rightarrow> wsToClientId h)"
proof (cases e)
  case (Connect w i)
  then show ?thesis by (simp add: fetch_def)
next
  case (Message w raw rnd now)
  show ?thesis
  proof (cases "handleMessage rnd now w raw h")
    case (Inl e')
    then show ?thesis using Message by simp
  next
    case (Inr h')
    from handleMessage_cases [OF Inr] have "wsToClientId h' = wsToClientId h"
      by (auto simp: same_regs_def joinEffect_def patchEffect_def)
    then show ?thesis using Message Inr by simp
  qed
next
  case (Close w)
  then show ?thesis by (simp add: cleanup_def wsToClientId_leaveRoom split: option.splits)
qed

lemma reachable_fold: "reachable h \<Longrightarrow> admissibleTrace es h \<Longrightarrow> reachable (fold step es h)"
  by (induction es arbitrary: h) (auto intro: reach_step)

lemma demo_admissible: "admissibleTrace demoTrace (newHub None)"
  by (simp add: demoTrace_def wsToClientId_step newHub_def del: step.simps)

lemma demo_reachable: "reachable demoHub"
  unfolding demoHub_def by (rule reachable_fold [OF reach_new demo_admissible])

lemma demo_facts:
  "wsToClientId demoHub 1 = Some ''A''"
  "clients demoHub ''A'' = Some \<lparr>cid = ''A'', ws = 1, app = Some ''demo'', room = Some ''r1'',
     meta = Some \<lparr>name = ''Player'', status = ''lobby''\<rparr>\<rparr>"
  "clients demoHub ''B'' = Some \<lparr>cid = ''B'', ws = 2, app = Some ''demo'', room = Some ''r1'',
     meta = Some \<lparr>name = ''player550'', status = ''lobby''\<rparr>\<rparr>"
  "clients demoHub ''C'' = Some \<lparr>cid = ''C'', ws = 3, app = Some ''demo'', room = Some ''r2'',
     meta = Some \<lparr>name = ''Player'', status = ''lobby''\<rparr>\<rparr>"
  "clients demoHub ''D'' = Some \<lparr>cid = ''D'', ws = 4, app = None, room = None, meta = None\<rparr>"
  "clients demoHub ''E'' = None"
  "rooms demoHub ''demo::r1'' = Some [''A'', ''B'']"
  "rooms demoHub ''demo::r2'' = Some [''C'']"
  "wsToClientId demoHub 4 = Some ''D''"
  by code_simp+

section \<open>Teardown\<close>

text \<open>
  Claim C5. Teardown is idempotent: for every registry state and client id, \<open>leaveRoom\<close>
  invoked twice for the same id leaves the same hub as invoked once, the log of emitted
  notifications included; the second invocation finds no client under the id, changes and
  sends nothing, and returns normally. The same holds for the listener \<open>cleanup\<close> that the
  transport calls on \<open>close\<close> and on \<open>error\<close>.
\<close>

theorem leaveRoom_idempotent:
  "leaveRoom i (leaveRoom i h) = leaveRoom i h
   \<and> sent (leaveRoom i (leaveRoom i h)) = sent (leaveRoom i h)
   \<and> clients (leaveRoom i h) i = None
   \<and> cleanup w (cleanup w h) = cleanup w h"
proof -
  have gone: "clients (leaveRoom j g) j = None" for j g by (simp add: clients_leaveRoom)
  have twice: "leaveRoom j (leaveRoom j g) = leaveRoom j g" for j g
    using gone by (rule leaveRoom_absent)
  have "cleanup w (cleanup w h) = cleanup w h"
    by (cases "wsToClientId h w") (simp_all add: cleanup_def wsToClientId_leaveRoom twice)
  with gone twice show ?thesis by simp
qed

theorem leaveRoom_idempotent_witness:
  "leaveRoom ''A'' (leaveRoom ''A'' demoHub) = leaveRoom ''A'' demoHub
   \<and> sent (leaveRoom ''A'' (leaveRoom ''A'' demoHub)) = sent demoHub @ [(2, peerLeftMsg ''A'')]
   \<and> rooms (leaveRoom ''A'' demoHub) ''demo::r1'' = Some [''B'']"
proof -
  have s: "sent (leaveRoom ''A'' demoHub) = sent demoHub @ [(2, peerLeftMsg ''A'')]" by code_simp
  have r: "rooms (leaveRoom ''A'' demoHub) ''demo::r1'' = Some [''B'']" by code_simp
  show ?thesis using leaveRoom_idempotent [of "''A''" demoHub 1] s r by simp
qed

section \<open>Addressed relay\<close>



text \<open>
  Claim C10. For every joined client of a reachable hub, a \<open>signal\<close> (or \<open>direct\<close>) message
  whose \<open>to\<close> is the sender's own id is not rejected: the lookup finds the sender, the room
  check passes, and \<open>{type, from: senderId, signal}\<close> goes to the sender's own socket.
\<close>

theorem self_addressed_delivered:
  assumes "reachable h"
    and "wsToClientId h w = Some k" and "k \<noteq> []" and "clients h k = Some c"
    and "truthy (app c)" and "truthy (room c)"
    and "(kind = ''signal'' \<and> field = ''signal'') \<or> (kind = ''direct'' \<and> field = ''payload'')"
    and "getProp msg ''type'' = Some (JStr kind)"
    and "getProp msg ''to'' = Some (JStr k)"
  shows "handleMessage rnd now w (Some msg) h =
           Inr (h\<lparr>sent := sent h @
             [(w, JObj [(''type'', JStr kind), (''from'', JStr k),
                        (field, (case getProp msg field of None \<Rightarrow> JNull | Some v \<Rightarrow> v))])]\<rparr>)"
proof -
  have own: "ws c = w" "cid c = k" using reachable_own_socket [OF assms(1,2,4)] by simp_all
  have nn: "msg \<noteq> JNull" using assms(8) by auto
  have "handleJoinedClientMessage rnd now k c msg h = Inr (relayAddressed kind field c msg h)"
    using assms(7,8) nn by (auto simp: handleJoinedClientMessage_def)
  moreover have "handleMessage rnd now w (Some msg) h = handleJoinedClientMessage rnd now k c msg h"
    using assms(2-6) by (simp add: handleMessage_def)
  ultimately show ?thesis
    using assms(4,9) own by (simp add: relayAddressed_def relayMsg_def wsJson_def)
qed

theorem self_addressed_delivered_witness:
  "reachable demoHub
   \<and> handleMessage (\<lambda>i. 0) 0 1 (Some (signalTo (JStr ''A''))) demoHub =
     Inr (demoHub\<lparr>sent := sent demoHub @
            [(1, JObj [(''type'', JStr ''signal''), (''from'', JStr ''A''), (''signal'', JStr ''sdp'')])]\<rparr>)"
proof -
  have k: "''A'' \<noteq> ([] :: string)" by simp
  have t: "truthy (app \<lparr>cid = ''A'', ws = 1, app = Some ''demo'', room = Some ''r1'',
     meta = Some \<lparr>name = ''Player'', status = ''lobby''\<rparr>\<rparr>)"
    "truthy (room \<lparr>cid = ''A'', ws = 1, app = Some ''demo'', room = Some ''r1'',
     meta = Some \<lparr>name = ''Player'', status = ''lobby''\<rparr>\<rparr>)" by simp_all
  have kf: "(''signal'' = ''signal'' \<and> ''signal'' = ''signal'') \<or> (''signal'' = ''direct'' \<and> ''signal'' = ''payload'')"
    by simp
  have ty: "getProp (signalTo (JStr ''A'')) ''type'' = Some (JStr ''signal'')" by (simp add: signalTo_def)
  have to: "getProp (signalTo (JStr ''A'')) ''to'' = Some (JStr ''A'')" by (simp add: signalTo_def)
  show ?thesis
    using self_addressed_delivered [where rnd = "\<lambda>i. 0" and now = 0,
        OF demo_reachable demo_facts(1) k demo_facts(2) t kf ty to]
      demo_reachable
    by (simp add: signalTo_def)
qed

section \<open>Rooms are never stored empty\<close>

lemma rooms_nonempty: "hub_inv h \<Longrightarrow> (rooms h key \<noteq> None) = (membersOf h key \<noteq> [])"
  by (cases "rooms h key") (auto simp: membersOf_def hub_inv_def room_inv_def)

text \<open>
  Claim C6. For every reachable hub, a room key is present in the room registry if and only
  if its member set is not empty; the same holds after every further operation (a
  connection, any message, a close), so no operation leaves an empty member set stored; and
  the close of the last member of a room deletes the room's entry in that very step.
\<close>

theorem room_present_iff_nonempty:
  assumes "reachable h"
  shows "(\<forall>key. (rooms h key \<noteq> None) = (membersOf h key \<noteq> []))
       \<and> (\<forall>e key. admissible e h \<longrightarrow> (rooms (step e h) key \<noteq> None) = (membersOf (step e h) key \<noteq> []))
       \<and> (\<forall>w i c a r. wsToClientId h w = Some i \<and> clients h i = Some c \<and> app c = Some a \<and> room c = Some r
             \<and> rooms h (roomKey a r) = Some [i]
             \<longrightarrow> rooms (step (Close w) h) (roomKey a r) = None)"
proof -
  have inv: "hub_inv h" using assms by (rule reachable_inv)
  have later: "hub_inv (step e h)" if "admissible e h" for e
    using inv reachable_sock [OF assms] that by (rule hub_inv_step)
  have last: "rooms (step (Close w) h) (roomKey a r) = None"
    if "wsToClientId h w = Some i" "clients h i = Some c" "app c = Some a" "room c = Some r"
       "rooms h (roomKey a r) = Some [i]" for w i c a r
  proof -
    have "client_inv h i c" using inv that(2) by (simp add: hub_inv_def)
    then have v: "validChannelString a" "validChannelString r"
      using that(3,4) by (auto simp: client_inv_def)
    have "rooms (leaveRoom i h) = (if removeAll i [i] = [] then (rooms h)(roomKey a r := None)
            else (rooms h)(roomKey a r \<mapsto> removeAll i [i]))"
      using that(2,3,4) v that(5) by (rule rooms_leaveRoom_joined)
    then show ?thesis using that(1) by (simp add: cleanup_def)
  qed
  have A: "\<forall>key. (rooms h key \<noteq> None) = (membersOf h key \<noteq> [])"
    using inv rooms_nonempty by blast
  have B: "\<forall>e key. admissible e h \<longrightarrow> (rooms (step e h) key \<noteq> None) = (membersOf (step e h) key \<noteq> [])"
    using later rooms_nonempty by blast
  have C: "\<forall>w i c a r. wsToClientId h w = Some i \<and> clients h i = Some c \<and> app c = Some a \<and> room c = Some r
             \<and> rooms h (roomKey a r) = Some [i]
             \<longrightarrow> rooms (step (Close w) h) (roomKey a r) = None"
    using last by blast
  show ?thesis using A B C by (intro conjI)
qed

theorem room_present_iff_nonempty_witness:
  "reachable demoHub
   \<and> rooms demoHub ''demo::r2'' = Some [''C'']
   \<and> rooms (step (Close 3) demoHub) (roomKey ''demo'' ''r2'') = None
   \<and> (rooms demoHub ''demo::r3'' \<noteq> None) = (membersOf demoHub ''demo::r3'' \<noteq> [])"
proof -
  have w: "wsToClientId demoHub 3 = Some ''C''" by code_simp
  have k: "roomKey ''demo'' ''r2'' = ''demo::r2''" by (simp add: roomKey_def)
  note t = room_present_iff_nonempty [OF demo_reachable]
  have r: "rooms demoHub (roomKey ''demo'' ''r2'') = Some [''C'']" using demo_facts(8) k by simp
  have "wsToClientId demoHub 3 = Some ''C'' \<and> clients demoHub ''C'' = Some \<lparr>cid = ''C'', ws = 3, app = Some ''demo'', room = Some ''r2'',
     meta = Some \<lparr>name = ''Player'', status = ''lobby''\<rparr>\<rparr> \<and> app \<lparr>cid = ''C'', ws = 3, app = Some ''demo'', room = Some ''r2'',
     meta = Some \<lparr>name = ''Player'', status = ''lobby''\<rparr>\<rparr> = Some ''demo'' \<and> room \<lparr>cid = ''C'', ws = 3, app = Some ''demo'', room = Some ''r2'',
     meta = Some \<lparr>name = ''Player'', status = ''lobby''\<rparr>\<rparr> = Some ''r2'' \<and> rooms demoHub (roomKey ''demo'' ''r2'') = Some [''C'']"
    using w demo_facts(4) r by simp
  then have last: "rooms (step (Close 3) demoHub) (roomKey ''demo'' ''r2'') = None"
    using t [THEN conjunct2, THEN conjunct2, rule_format] by blast
  have first: "(rooms demoHub ''demo::r3'' \<noteq> None) = (membersOf demoHub ''demo::r3'' \<noteq> [])"
    using t [THEN conjunct1, rule_format] .
  show ?thesis using demo_reachable demo_facts(8) last first by (intro conjI)
qed

section \<open>The join handshake\<close>



section \<open>A handler that raises\<close>

lemma raise_toString: "normalizeDisplayName (Some (JObj [(''toString'', v)])) = Inl TypeError"
  by simp

text \<open>
  What the capacity check does hold: the maximum is at least 2, a room of a reachable hub
  never has more members than the maximum, and a join to a room at the maximum is answered
  with \<open>room-full\<close> and the maximum, to the sender, nothing else changing.
\<close>

lemma maxRoomSize_ge_2: "2 \<le> maxRoomSize h"
proof (cases "env_MAX_ROOM_SIZE h")
  case None
  then show ?thesis by (simp add: maxRoomSize_def)
next
  case (Some raw)
  show ?thesis
  proof (cases "raw < 2")
    case True
    then show ?thesis using Some by (simp add: maxRoomSize_def)
  next
    case False
    then have "(2::int) \<le> \<lfloor>raw\<rfloor>" by (simp add: le_floor_iff)
    then have "2 \<le> nat \<lfloor>raw\<rfloor>" by linarith
    then show ?thesis using Some False by (simp add: maxRoomSize_def)
  qed
qed

lemma room_size_bounded: "reachable h \<Longrightarrow> length (membersOf h key) \<le> maxRoomSize h"
  using reachable_inv [of h]
  by (cases "rooms h key") (auto simp: membersOf_def hub_inv_def room_inv_def)

lemma join_room_full:
  assumes "wsToClientId h w = Some k" and "k \<noteq> []" and "clients h k = Some c"
    and "\<not> (truthy (app c) \<and> truthy (room c))"
    and "getProp msg ''type'' = Some (JStr ''join'')"
    and "getProp msg ''app'' = Some (JStr a)" and "validChannelString a"
    and "getProp msg ''room'' = Some (JStr r)" and "validChannelString r"
    and "maxRoomSize h \<le> length (membersOf h (roomKey a r))"
  shows "handleMessage rnd now w (Some msg) h =
           Inr (h\<lparr>sent := sent h @ [(ws c, errorMsg ''room-full'' [(''max'', JNum (int (maxRoomSize h)))])]\<rparr>)"
proof -
  have nn: "msg \<noteq> JNull" using assms(5) by auto
  have "handleMessage rnd now w (Some msg) h = handleFirstJoin rnd now k c msg h"
    using assms(1-4) by (auto simp: handleMessage_def)
  then show ?thesis
    using assms(5-10) nn by (simp add: handleFirstJoin_def Let_def membersOf_def wsJson_def)
qed

text \<open>
  Claim C1 says that a join with valid names to a room below the maximum is accepted. The
  code raises instead when the conversion of \<open>meta.name\<close> to a string raises: for every
  such first message, \<open>handleMessage\<close> ends in the \<open>TypeError\<close>, and the client is
  neither inserted nor answered.
\<close>

theorem join_below_capacity_raises:
  assumes "wsToClientId h w = Some k" and "k \<noteq> []" and "clients h k = Some c"
    and "\<not> (truthy (app c) \<and> truthy (room c))"
    and "getProp msg ''type'' = Some (JStr ''join'')"
    and "getProp msg ''app'' = Some (JStr a)" and "validChannelString a"
    and "getProp msg ''room'' = Some (JStr r)" and "validChannelString r"
    and "length (membersOf h (roomKey a r)) < maxRoomSize h"
    and "normalizeMeta (getProp msg ''meta'') = Inl e"
  shows "handleMessage rnd now w (Some msg) h = Inl e \<and> step (Message w (Some msg) rnd now) h = h"
proof -
  have nn: "msg \<noteq> JNull" using assms(5) by auto
  have "handleMessage rnd now w (Some msg) h = handleFirstJoin rnd now k c msg h"
    using assms(1-4) by (auto simp: handleMessage_def)
  then have "handleMessage rnd now w (Some msg) h = Inl e"
    using assms(5-11) nn by (simp add: handleFirstJoin_def Let_def membersOf_def)
  then show ?thesis by simp
qed

theorem join_below_capacity_raises_witness:
  "reachable demoHub
   \<and> validChannelName (Some (JStr ''demo'')) \<and> validChannelName (Some (JStr ''r1''))
   \<and> length (membersOf demoHub (roomKey ''demo'' ''r1'')) = 2 \<and> maxRoomSize demoHub = 64
   \<and> handleMessage (\<lambda>i. 0) 0 4
        (Some (joinNamed ''demo'' ''r1'' (JObj [(''toString'', JNum 1)]))) demoHub = Inl TypeError
   \<and> step (Message 4 (Some (joinNamed ''demo'' ''r1'' (JObj [(''toString'', JNum 1)]))) (\<lambda>i. 0) 0) demoHub
       = demoHub"
proof -
  let ?msg = "joinNamed ''demo'' ''r1'' (JObj [(''toString'', JNum 1)])"
  let ?d = "\<lparr>cid = ''D'', ws = 4, app = None, room = None, meta = None\<rparr>"
  have k: "''D'' \<noteq> ([] :: string)" by simp
  have unj: "\<not> (truthy (app ?d) \<and> truthy (room ?d))" by simp
  have ty: "getProp ?msg ''type'' = Some (JStr ''join'')" by (simp add: joinNamed_def joinMsg_def)
  have pa: "getProp ?msg ''app'' = Some (JStr ''demo'')" by (simp add: joinNamed_def joinMsg_def)
  have pr: "getProp ?msg ''room'' = Some (JStr ''r1'')" by (simp add: joinNamed_def joinMsg_def)
  have va: "validChannelString ''demo''" by (simp add: validChannelString_def channelChar_def)
  have vr: "validChannelString ''r1''" by (simp add: validChannelString_def channelChar_def)
  have f1: "length (membersOf demoHub (roomKey ''demo'' ''r1'')) = 2" by code_simp
  have f3: "maxRoomSize demoHub = 64" by code_simp
  have len: "length (membersOf demoHub (roomKey ''demo'' ''r1'')) < maxRoomSize demoHub"
    by (simp add: f1 f3)
  have f4: "normalizeMeta (getProp ?msg ''meta'') = Inl TypeError"
    by (simp add: joinNamed_def joinMsg_def normalizeMeta_def)
  note t = join_below_capacity_raises [where rnd = "\<lambda>i. 0" and now = 0,
      OF demo_facts(9) k demo_facts(5) unj ty pa va pr vr len f4]
  show ?thesis
    using t demo_reachable va vr f1 f3 by simp
qed

section \<open>Presence patches\<close>

text \<open>
  What \<open>set-meta\<close> does when the conversion of the patched name does not raise: the client's
  meta becomes \<open>patched\<close> (the name through the allocator with the client itself excluded
  when the patch has a \<open>name\<close>, the status normalized when it has a \<open>status\<close>, the prior
  values otherwise), nothing else of the registries changes, and \<open>meta-updated\<close> goes to
  the sender, \<open>peer-meta\<close> to every other member. A patch that is not an object is answered
  with \<open>invalid-meta-patch\<close>.
\<close>

lemma set_meta_merges:
  assumes "wsToClientId h w = Some k" and "k \<noteq> []" and "clients h k = Some c"
    and "truthy (app c)" and "truthy (room c)"
    and "getProp msg ''type'' = Some (JStr ''set-meta'')"
    and "getProp msg ''patch'' = Some p" and "isObject (Some p)"
    and "hasOwnProperty p ''name'' \<Longrightarrow> normalizeDisplayName (getProp p ''name'') = Inr n"
  shows "handleMessage rnd now w (Some msg) h =
           Inr (relayPeerMeta (c\<lparr>meta := Some (patched rnd now h c p n)\<rparr>) True
                  (h\<lparr>clients := (clients h)(k \<mapsto> c\<lparr>meta := Some (patched rnd now h c p n)\<rparr>)\<rparr>))"
proof -
  have nn: "msg \<noteq> JNull" using assms(6) by auto
  have "handleMessage rnd now w (Some msg) h = handleJoinedClientMessage rnd now k c msg h"
    using assms(1-5) by (simp add: handleMessage_def)
  also have "\<dots> = handleSetMeta rnd now k c (Some p) h"
    using assms(6,7) nn by (simp add: handleJoinedClientMessage_def)
  finally show ?thesis using handleSetMeta_success [OF assms(8,9)] by simp
qed

lemma set_meta_invalid:
  assumes "wsToClientId h w = Some k" and "k \<noteq> []" and "clients h k = Some c"
    and "truthy (app c)" and "truthy (room c)"
    and "getProp msg ''type'' = Some (JStr ''set-meta'')"
    and "\<not> isObject (getProp msg ''patch'')"
  shows "handleMessage rnd now w (Some msg) h =
           Inr (h\<lparr>sent := sent h @ [(ws c, errorMsg ''invalid-meta-patch'' [])]\<rparr>)"
proof -
  have nn: "msg \<noteq> JNull" using assms(6) by auto
  have "handleMessage rnd now w (Some msg) h = handleJoinedClientMessage rnd now k c msg h"
    using assms(1-5) by (simp add: handleMessage_def)
  also have "\<dots> = handleSetMeta rnd now k c (getProp msg ''patch'') h"
    using assms(6) nn by (simp add: handleJoinedClientMessage_def)
  finally show ?thesis using handleSetMeta_invalid [OF assms(7)] by (simp add: wsJson_def)
qed

text \<open>
  Claim C8 says that for every \<open>set-meta\<close> whose patch is an object the fields present in
  the patch are replaced. The code raises instead when the patch has a \<open>name\<close> whose
  conversion to a string raises: \<open>handleMessage\<close> ends in the \<open>TypeError\<close>, the meta keeps
  its prior name, and nothing is sent.
\<close>

theorem set_meta_name_raises:
  assumes "wsToClientId h w = Some k" and "k \<noteq> []" and "clients h k = Some c"
    and "truthy (app c)" and "truthy (room c)"
    and "getProp msg ''type'' = Some (JStr ''set-meta'')"
    and "getProp msg ''patch'' = Some p" and "isObject (Some p)"
    and "hasOwnProperty p ''name''"
    and "normalizeDisplayName (getProp p ''name'') = Inl e"
  shows "handleMessage rnd now w (Some msg) h = Inl e \<and> step (Message w (Some msg) rnd now) h = h"
proof -
  have nn: "msg \<noteq> JNull" using assms(6) by auto
  have "handleMessage rnd now w (Some msg) h = handleJoinedClientMessage rnd now k c msg h"
    using assms(1-5) by (simp add: handleMessage_def)
  also have "\<dots> = handleSetMeta rnd now k c (Some p) h"
    using assms(6,7) nn by (simp add: handleJoinedClientMessage_def)
  finally have "handleMessage rnd now w (Some msg) h = Inl e"
    using handleSetMeta_raises [OF assms(8,9,10)] by simp
  then show ?thesis by simp
qed

theorem set_meta_name_raises_witness:
  "reachable demoHub
   \<and> isObject (Some (JObj [(''name'', JObj [(''toString'', JNum 1)])]))
   \<and> hasOwnProperty (JObj [(''name'', JObj [(''toString'', JNum 1)])]) ''name''
   \<and> handleMessage (\<lambda>i. 0) 0 1
        (Some (setMetaMsg (JObj [(''name'', JObj [(''toString'', JNum 1)])]))) demoHub = Inl TypeError
   \<and> step (Message 1 (Some (setMetaMsg (JObj [(''name'', JObj [(''toString'', JNum 1)])]))) (\<lambda>i. 0) 0) demoHub
       = demoHub"
proof -
  let ?p = "JObj [(''name'', JObj [(''toString'', JNum 1)])]"
  let ?a = "\<lparr>cid = ''A'', ws = 1, app = Some ''demo'', room = Some ''r1'',
     meta = Some \<lparr>name = ''Player'', status = ''lobby''\<rparr>\<rparr>"
  have k: "''A'' \<noteq> ([] :: string)" by simp
  have t: "truthy (app ?a)" "truthy (room ?a)" by simp_all
  have ty: "getProp (setMetaMsg ?p) ''type'' = Some (JStr ''set-meta'')" by (simp add: setMetaMsg_def)
  have pp: "getProp (setMetaMsg ?p) ''patch'' = Some ?p" by (simp add: setMetaMsg_def)
  have ob: "isObject (Some ?p)" by simp
  have ho: "hasOwnProperty ?p ''name''" by simp
  have ra: "normalizeDisplayName (getProp ?p ''name'') = Inl TypeError" by simp
  note r = set_meta_name_raises [where rnd = "\<lambda>i. 0" and now = 0,
      OF demo_facts(1) k demo_facts(2) t ty pp ob ho ra]
  show ?thesis using r demo_reachable by simp
qed

section \<open>The name allocator\<close>

lemma natToString_nonempty: "natToString n \<noteq> []"
  by (subst natToString.simps) simp

lemma randomLoop_None:
  "(randomLoop rnd used base i = None) =
     (\<forall>j. i \<le> j \<and> j < 500 \<longrightarrow> toLowerCase (base @ natToString (randomSuffix (rnd j))) \<in> used)"
proof (induction rnd used base i rule: randomLoop.induct)
  case (1 rnd used base i)
  show ?case
  proof (cases "i < 500")
    case False
    then show ?thesis by (subst randomLoop.simps) auto
  next
    case True
    show ?thesis
    proof (cases "toLowerCase (base @ natToString (randomSuffix (rnd i))) \<in> used")
      case False
      then show ?thesis using True by (subst randomLoop.simps) auto
    next
      case used: True
      have "(randomLoop rnd used base i = None) = (randomLoop rnd used base (i + 1) = None)"
        using True used by (subst randomLoop.simps) simp
      also have "\<dots> = (\<forall>j. i + 1 \<le> j \<and> j < 500 \<longrightarrow>
                         toLowerCase (base @ natToString (randomSuffix (rnd j))) \<in> used)"
        using "1.IH" True used by simp
      also have "\<dots> = (\<forall>j. i \<le> j \<and> j < 500 \<longrightarrow>
                         toLowerCase (base @ natToString (randomSuffix (rnd j))) \<in> used)"
        using used by (metis Suc_eq_plus1 Suc_leI le_neq_implies_less Suc_leD)
      finally show ?thesis .
    qed
  qed
qed

lemma randomLoop_Some:
  "randomLoop rnd used base i = Some x \<Longrightarrow>
     \<exists>j. i \<le> j \<and> j < 500 \<and> x = base @ natToString (randomSuffix (rnd j)) \<and> toLowerCase x \<notin> used \<and>
         (\<forall>j'. i \<le> j' \<and> j' < j \<longrightarrow> toLowerCase (base @ natToString (randomSuffix (rnd j'))) \<in> used)"
proof (induction rnd used base i rule: randomLoop.induct)
  case (1 rnd used base i)
  have lt: "i < 500" using "1.prems" by (subst (asm) randomLoop.simps) (auto split: if_splits)
  show ?case
  proof (cases "toLowerCase (base @ natToString (randomSuffix (rnd i))) \<in> used")
    case False
    then have "x = base @ natToString (randomSuffix (rnd i))"
      using "1.prems" lt by (subst (asm) randomLoop.simps) simp
    then show ?thesis using False lt by (intro exI [of _ i]) auto
  next
    case True
    then have "randomLoop rnd used base (i + 1) = Some x"
      using "1.prems" lt by (subst (asm) randomLoop.simps) simp
    from "1.IH" [OF lt _ this] True obtain j where
      j: "i + 1 \<le> j" "j < 500" "x = base @ natToString (randomSuffix (rnd j))" "toLowerCase x \<notin> used"
         "\<forall>j'. i + 1 \<le> j' \<and> j' < j \<longrightarrow> toLowerCase (base @ natToString (randomSuffix (rnd j'))) \<in> used"
      by auto
    have "\<forall>j'. i \<le> j' \<and> j' < j \<longrightarrow> toLowerCase (base @ natToString (randomSuffix (rnd j'))) \<in> used"
      using j(5) True by (metis Suc_eq_plus1 Suc_leI le_neq_implies_less)
    then show ?thesis using j by (intro exI [of _ j]) auto
  qed
qed

lemma sequentialLoop_None:
  "(sequentialLoop used base n = None) =
     (\<forall>j. n \<le> j \<and> j < 10000 \<longrightarrow> toLowerCase (base @ natToString j) \<in> used)"
proof (induction used base n rule: sequentialLoop.induct)
  case (1 used base n)
  show ?case
  proof (cases "n < 10000")
    case False
    then show ?thesis by (subst sequentialLoop.simps) auto
  next
    case True
    show ?thesis
    proof (cases "toLowerCase (base @ natToString n) \<in> used")
      case False
      then show ?thesis using True by (subst sequentialLoop.simps) auto
    next
      case used: True
      have "(sequentialLoop used base n = None) = (sequentialLoop used base (n + 1) = None)"
        using True used by (subst sequentialLoop.simps) simp
      also have "\<dots> = (\<forall>j. n + 1 \<le> j \<and> j < 10000 \<longrightarrow> toLowerCase (base @ natToString j) \<in> used)"
        using "1.IH" True used by simp
      also have "\<dots> = (\<forall>j. n \<le> j \<and> j < 10000 \<longrightarrow> toLowerCase (base @ natToString j) \<in> used)"
        using used by (metis Suc_eq_plus1 Suc_leI le_neq_implies_less Suc_leD)
      finally show ?thesis .
    qed
  qed
qed

lemma sequentialLoop_Some:
  "sequentialLoop used base n = Some x \<Longrightarrow>
     \<exists>j. n \<le> j \<and> j < 10000 \<and> x = base @ natToString j \<and> toLowerCase x \<notin> used \<and>
         (\<forall>j'. n \<le> j' \<and> j' < j \<longrightarrow> toLowerCase (base @ natToString j') \<in> used)"
proof (induction used base n rule: sequentialLoop.induct)
  case (1 used base n)
  have lt: "n < 10000" using "1.prems" by (subst (asm) sequentialLoop.simps) (auto split: if_splits)
  show ?case
  proof (cases "toLowerCase (base @ natToString n) \<in> used")
    case False
    then have "x = base @ natToString n"
      using "1.prems" lt by (subst (asm) sequentialLoop.simps) simp
    then show ?thesis using False lt by (intro exI [of _ n]) auto
  next
    case True
    then have "sequentialLoop used base (n + 1) = Some x"
      using "1.prems" lt by (subst (asm) sequentialLoop.simps) simp
    from "1.IH" [OF lt _ this] True obtain j where
      j: "n + 1 \<le> j" "j < 10000" "x = base @ natToString j" "toLowerCase x \<notin> used"
         "\<forall>j'. n + 1 \<le> j' \<and> j' < j \<longrightarrow> toLowerCase (base @ natToString j') \<in> used"
      by auto
    have "\<forall>j'. n \<le> j' \<and> j' < j \<longrightarrow> toLowerCase (base @ natToString j') \<in> used"
      using j(5) True by (metis Suc_eq_plus1 Suc_leI le_neq_implies_less)
    then show ?thesis using j by (intro exI [of _ j]) auto
  qed
qed

lemma usedNamesLoop_eq:
  "usedNamesLoop cs ign ms =
     {toLowerCase (name m) | i c m. i \<in> set ms \<and> \<not> (truthy ign \<and> Some i = ign) \<and>
                               cs i = Some c \<and> meta c = Some m \<and> name m \<noteq> []}"
proof (induction ms)
  case Nil
  show ?case by simp
next
  case (Cons x xs)
  show ?case
    by (cases "cs x"; cases "truthy ign \<and> Some x = ign")
       (auto simp: Cons.IH split: option.splits)
qed

text \<open>
  The suffix is computed in double precision. Rounding never crosses a double: a bound
  that is itself a multiple of the unit in the last place of \<open>x\<close> bounds \<open>toDouble x\<close> too.
  The largest draw is \<open>1 - 2^-53\<close>; its product with 900 rounds to the double just below
  900, and the sum with 100 is then at most the double just below 1000.
\<close>

lemma pow2_powi: "pow2 e = 2 powi e"
  by (simp add: pow2_def power_int_def inverse_eq_divide power_one_over)

lemma pow2_pos: "0 < pow2 e"
  by (simp add: pow2_powi)

lemma pow2_add: "pow2 (a + b) = pow2 a * pow2 b"
  by (simp add: pow2_powi power_int_add)

lemma pow2_mono: "a \<le> b \<Longrightarrow> pow2 a \<le> pow2 b"
  by (simp add: pow2_powi power_int_increasing)

lemma pow2_strict_mono: "a < b \<Longrightarrow> pow2 a < pow2 b"
  by (simp add: pow2_powi power_int_strict_increasing)

lemma pow2_nat: "pow2 (int n) = 2 ^ n"
  by (simp add: pow2_def)

lemma pow2_neg_nat: "pow2 (- int n) = 1 / 2 ^ n"
  by (simp add: pow2_powi power_int_minus inverse_eq_divide)

lemma bitLength_bounds: "0 < n \<Longrightarrow> 2 ^ (bitLength n - 1) \<le> n \<and> n < 2 ^ bitLength n"
proof (induction n rule: bitLength.induct)
  case (1 n)
  show ?case
  proof (cases "n div 2 \<le> 0")
    case True
    then have "n = 1" using "1.prems" by linarith
    then show ?thesis by (simp add: bitLength.simps [of 1] bitLength.simps [of 0])
  next
    case False
    then have ih: "2 ^ (bitLength (n div 2) - 1) \<le> n div 2" "n div 2 < 2 ^ bitLength (n div 2)"
      using "1.IH" "1.prems" by auto
    have b: "bitLength n = Suc (bitLength (n div 2))"
      using "1.prems" by (subst bitLength.simps) simp
    have pos: "0 < bitLength (n div 2)"
      using False by (subst bitLength.simps) simp
    then have "(2::int) ^ bitLength (n div 2) = 2 * 2 ^ (bitLength (n div 2) - 1)"
      by (cases "bitLength (n div 2)") simp_all
    then show ?thesis using ih b by simp linarith
  qed
qed

lemma bitLength_pos: "0 < n \<Longrightarrow> 0 < bitLength n"
  by (subst bitLength.simps) simp

lemma floorLog2_bounds:
  assumes "0 < x"
  shows "pow2 (floorLog2 x) \<le> x \<and> x < pow2 (floorLog2 x + 1)"
proof (cases "1 \<le> x")
  case True
  define n where "n = \<lfloor>x\<rfloor>"
  have n: "0 < n" using True by (simp add: n_def)
  have fl: "floorLog2 x = int (bitLength n) - 1" using True by (simp add: floorLog2_def n_def)
  note b = bitLength_bounds [OF n]
  have bl: "0 < bitLength n" using n by (rule bitLength_pos)
  have e1: "int (bitLength n) - 1 = int (bitLength n - 1)" using bl by simp
  have "(of_int n :: rat) \<le> x" by (simp add: n_def)
  moreover have "(2::rat) ^ (bitLength n - 1) \<le> of_int n"
  proof -
    have "(of_int (2 ^ (bitLength n - 1)) :: rat) \<le> of_int n"
      using b [THEN conjunct1] by (simp only: of_int_le_iff)
    then show ?thesis by simp
  qed
  ultimately have lo: "pow2 (floorLog2 x) \<le> x" unfolding fl e1 pow2_nat by linarith
  have "x < of_int n + 1" unfolding n_def using floor_correct [of x] by simp
  moreover have "(of_int n :: rat) + 1 \<le> 2 ^ bitLength n"
  proof -
    have "n + 1 \<le> 2 ^ bitLength n" using b by simp
    then have "(of_int (n + 1) :: rat) \<le> of_int (2 ^ bitLength n)" by (simp only: of_int_le_iff)
    then show ?thesis by simp
  qed
  ultimately have hi: "x < pow2 (floorLog2 x + 1)" unfolding fl by (simp add: pow2_nat)
  show ?thesis using lo hi by simp
next
  case False
  define c where "c = \<lceil>1 / x\<rceil>"
  define m where "m = c - 1"
  have inv: "1 < 1 / x" using False assms by simp
  have c2: "2 \<le> c" using inv unfolding c_def by linarith
  have m: "0 < m" using c2 by (simp add: m_def)
  have fl: "floorLog2 x = - int (bitLength m)" using False by (simp add: floorLog2_def m_def c_def)
  note b = bitLength_bounds [OF m]
  have bl: "0 < bitLength m" using m by (rule bitLength_pos)
  have "of_int c \<le> (2::rat) ^ bitLength m"
  proof -
    have "c \<le> 2 ^ bitLength m" using b [THEN conjunct2] by (simp add: m_def)
    then have "(of_int c :: rat) \<le> of_int (2 ^ bitLength m)" by (simp only: of_int_le_iff)
    then show ?thesis by simp
  qed
  moreover have "1 / x \<le> of_int c" unfolding c_def by (rule le_of_int_ceiling)
  ultimately have "1 / x \<le> 2 ^ bitLength m" by linarith
  then have "1 \<le> 2 ^ bitLength m * x" using assms by (simp add: field_simps)
  then have lo: "pow2 (floorLog2 x) \<le> x"
    unfolding fl pow2_neg_nat using assms by (simp add: field_simps)
  have "(2::rat) ^ (bitLength m - 1) \<le> of_int (c - 1)"
  proof -
    have "(of_int (2 ^ (bitLength m - 1)) :: rat) \<le> of_int (c - 1)"
      using b [THEN conjunct1] unfolding m_def by (simp only: of_int_le_iff)
    then show ?thesis by simp
  qed
  moreover have "of_int (c - 1) < 1 / x" unfolding c_def using ceiling_correct [of "1 / x"] by simp
  ultimately have "2 ^ (bitLength m - 1) < 1 / x" by linarith
  then have lt: "2 ^ (bitLength m - 1) * x < 1" using assms by (simp add: field_simps)
  have e: "floorLog2 x + 1 = - int (bitLength m - 1)" unfolding fl using bl by simp
  have hi: "x < pow2 (floorLog2 x + 1)"
    unfolding e pow2_neg_nat using lt assms by (simp add: field_simps)
  show ?thesis using lo hi by simp
qed

lemma floorLog2_le: "0 < x \<Longrightarrow> x < pow2 (k + 1) \<Longrightarrow> floorLog2 x \<le> k"
proof (rule ccontr)
  assume x: "0 < x" "x < pow2 (k + 1)" and "\<not> floorLog2 x \<le> k"
  then have "k + 1 \<le> floorLog2 x" by simp
  then have "pow2 (k + 1) \<le> pow2 (floorLog2 x)" by (rule pow2_mono)
  then show False using floorLog2_bounds [OF x(1)] x(2) by linarith
qed

lemma floorLog2_ge: "0 < x \<Longrightarrow> pow2 k \<le> x \<Longrightarrow> k \<le> floorLog2 x"
proof (rule ccontr)
  assume x: "0 < x" "pow2 k \<le> x" and "\<not> k \<le> floorLog2 x"
  then have "floorLog2 x + 1 \<le> k" by simp
  then have "pow2 (floorLog2 x + 1) \<le> pow2 k" by (rule pow2_mono)
  then show False using floorLog2_bounds [OF x(1)] x(2) by linarith
qed

lemma roundTiesToEven_le: "q \<le> of_int K \<Longrightarrow> roundTiesToEven q \<le> K"
proof -
  assume q: "q \<le> of_int K"
  have f: "\<lfloor>q\<rfloor> \<le> K" using q by (simp add: floor_le_iff) 
  show ?thesis
  proof (cases "\<lfloor>q\<rfloor> = K")
    case True
    then have "q - of_int \<lfloor>q\<rfloor> \<le> 0" using q by simp
    then show ?thesis using True by (simp add: roundTiesToEven_def Let_def)
  next
    case False
    then have "\<lfloor>q\<rfloor> + 1 \<le> K" using f by simp
    then show ?thesis by (simp add: roundTiesToEven_def Let_def)
  qed
qed

lemma roundTiesToEven_ge: "of_int K \<le> q \<Longrightarrow> K \<le> roundTiesToEven q"
proof -
  assume "of_int K \<le> q"
  then have "K \<le> \<lfloor>q\<rfloor>" by (simp add: le_floor_iff)
  then show ?thesis by (simp add: roundTiesToEven_def Let_def)
qed

lemma roundTiesToEven_below_half: "q < of_int K + 1 / 2 \<Longrightarrow> roundTiesToEven q \<le> K"
proof -
  assume q: "q < of_int K + 1 / 2"
  have f: "\<lfloor>q\<rfloor> \<le> K"
  proof -
    have "q < of_int (K + 1)" using q by simp
    then show ?thesis by (simp add: floor_less_iff [symmetric] del: of_int_add)
  qed
  show ?thesis
  proof (cases "\<lfloor>q\<rfloor> = K")
    case True
    then have "q - of_int \<lfloor>q\<rfloor> < 1 / 2" using q by simp
    then show ?thesis using True by (simp add: roundTiesToEven_def Let_def)
  next
    case False
    then have "\<lfloor>q\<rfloor> + 1 \<le> K" using f by simp
    then show ?thesis by (simp add: roundTiesToEven_def Let_def)
  qed
qed

lemma toDouble_pos:
  "0 < x \<Longrightarrow> toDouble x = of_int (roundTiesToEven (x / pow2 (ulpExponent x))) * pow2 (ulpExponent x)"
  by (simp add: toDouble_def)

lemma toDouble_le_grid:
  assumes "0 < x" and "x \<le> of_int K * pow2 (ulpExponent x)"
  shows "toDouble x \<le> of_int K * pow2 (ulpExponent x)"
proof -
  have "x / pow2 (ulpExponent x) \<le> of_int K"
    using assms(2) pow2_pos [of "ulpExponent x"] by (simp add: field_simps)
  then have "roundTiesToEven (x / pow2 (ulpExponent x)) \<le> K" by (rule roundTiesToEven_le)
  then have "(of_int (roundTiesToEven (x / pow2 (ulpExponent x))) :: rat) \<le> of_int K"
    by (simp only: of_int_le_iff)
  then show ?thesis
    unfolding toDouble_pos [OF assms(1)] using pow2_pos [of "ulpExponent x"]
    by (simp add: mult_right_mono)
qed

lemma toDouble_ge_grid:
  assumes "0 < x" and "of_int K * pow2 (ulpExponent x) \<le> x"
  shows "of_int K * pow2 (ulpExponent x) \<le> toDouble x"
proof -
  have "of_int K \<le> x / pow2 (ulpExponent x)"
    using assms(2) pow2_pos [of "ulpExponent x"] by (simp add: field_simps)
  then have "K \<le> roundTiesToEven (x / pow2 (ulpExponent x))" by (rule roundTiesToEven_ge)
  then have "(of_int K :: rat) \<le> of_int (roundTiesToEven (x / pow2 (ulpExponent x)))"
    by (simp only: of_int_le_iff)
  then show ?thesis
    unfolding toDouble_pos [OF assms(1)] using pow2_pos [of "ulpExponent x"]
    by (simp add: mult_right_mono)
qed

lemma grid_refine: "e \<le> e' \<Longrightarrow> of_int M * pow2 e' = of_int (M * 2 ^ nat (e' - e)) * pow2 e"
proof -
  assume "e \<le> e'"
  then have "pow2 e' = pow2 (int (nat (e' - e)) + e)" by simp
  also have "\<dots> = 2 ^ nat (e' - e) * pow2 e" unfolding pow2_add pow2_nat ..
  finally show ?thesis by simp
qed


lemma ulpExponent_le:
  assumes "0 < x" and "x < pow2 (k + 1)" and "- 1074 \<le> k - 52"
  shows "ulpExponent x \<le> k - 52"
proof -
  have "floorLog2 x \<le> k" using assms(1,2) by (rule floorLog2_le)
  then show ?thesis using assms(1,3) by (simp add: ulpExponent_def)
qed

lemma ulpExponent_eq:
  assumes "pow2 k \<le> x" and "x < pow2 (k + 1)" and "- 1074 \<le> k - 52"
  shows "ulpExponent x = k - 52"
proof -
  have x: "0 < x" using pow2_pos [of k] assms(1) by linarith
  have "floorLog2 x \<le> k" using x assms(2) by (rule floorLog2_le)
  moreover have "k \<le> floorLog2 x" using x assms(1) by (rule floorLog2_ge)
  ultimately show ?thesis using x assms(3) by (simp add: ulpExponent_def)
qed

lemma pow2_numerals:
  "pow2 (- 53) = 1 / 2 ^ 53" "pow2 (- 43) = 1 / 2 ^ 43" "pow2 (- 1) = 1 / 2" "pow2 0 = 1"
  "pow2 9 = 512" "pow2 10 = 1024"
  by (simp_all add: pow2_def)

lemma draw_le:
  assumes "isDraw u"
  shows "u \<le> 1 - 1 / 2 ^ 53"
proof (cases "u < 1 / 2")
  case True
  then show ?thesis by simp
next
  case False
  have u: "0 < u" "u < 1" "toDouble u = u" using assms False by (simp_all add: isDraw_def)
  have "ulpExponent u = (- 1) - 52"
    using False u(2) by (intro ulpExponent_eq) (simp_all add: pow2_numerals)
  then have e: "ulpExponent u = - 53" by simp
  define R where "R = roundTiesToEven (u / pow2 (- 53))"
  have ur: "u = of_int R / 2 ^ 53"
    using u(3) unfolding toDouble_pos [OF u(1)] e R_def by (simp add: pow2_numerals)
  then have "(of_int R :: rat) < 2 ^ 53" using u(2) by simp
  then have "(of_int R :: rat) < of_int (2 ^ 53)" by simp
  then have "R < 2 ^ 53" by (simp only: of_int_less_iff)
  then have "R \<le> 2 ^ 53 - 1" by simp
  then have "(of_int R :: rat) \<le> of_int (2 ^ 53 - 1)" by (simp only: of_int_le_iff)
  then show ?thesis unfolding ur by (simp add: field_simps)
qed

lemma toDouble_times_900:
  assumes "isDraw u"
  shows "0 \<le> toDouble (u * 900) \<and> toDouble (u * 900) \<le> 900 - 1 / 2 ^ 43"
proof (cases "u = 0")
  case True
  then show ?thesis by (simp add: toDouble_def)
next
  case False
  define x where "x = u * 900"
  have x: "0 < x" using assms False by (simp add: isDraw_def x_def)
  have xle: "x \<le> 900 - 900 / 2 ^ 53" using draw_le [OF assms] by (simp add: x_def)
  have lo: "0 \<le> toDouble x"
    using toDouble_ge_grid [OF x, of 0] x by simp
  have e: "ulpExponent x \<le> 9 - 52"
    using x xle by (intro ulpExponent_le) (simp_all add: pow2_numerals)
  have hi: "toDouble x \<le> 900 - 1 / 2 ^ 43"
  proof (cases "ulpExponent x = - 43")
    case True
    have "x * 2 ^ 43 \<le> (900 - 900 / 2 ^ 53) * 2 ^ 43" using xle by simp
    then have "x / pow2 (- 43) < of_int (900 * 2 ^ 43 - 1) + 1 / 2"
      by (simp add: pow2_numerals)
    then have "roundTiesToEven (x / pow2 (- 43)) \<le> 900 * 2 ^ 43 - 1"
      by (rule roundTiesToEven_below_half)
    then have "(of_int (roundTiesToEven (x / pow2 (- 43))) :: rat) \<le> of_int (900 * 2 ^ 43 - 1)"
      by (simp only: of_int_le_iff)
    then show ?thesis
      unfolding toDouble_pos [OF x] True by (simp add: pow2_numerals field_simps)
  next
    case False
    then have "ulpExponent x < - 43" using e by simp
    then have "floorLog2 x + 1 \<le> 9" using x by (simp add: ulpExponent_def)
    then have "pow2 (floorLog2 x + 1) \<le> pow2 9" by (rule pow2_mono)
    then have x512: "x \<le> 512" using floorLog2_bounds [OF x] by (simp add: pow2_numerals)
    have "ulpExponent x \<le> 9" using e by simp
    from grid_refine [OF this, of 1]
    have g: "512 = of_int (2 ^ nat (9 - ulpExponent x)) * pow2 (ulpExponent x)"
      by (simp add: pow2_numerals)
    have "toDouble x \<le> of_int (2 ^ nat (9 - ulpExponent x)) * pow2 (ulpExponent x)"
      using x512 g by (intro toDouble_le_grid [OF x]) simp
    then have "toDouble x \<le> 512" using g by simp
    then show ?thesis by simp
  qed
  show ?thesis using lo hi by (simp add: x_def)
qed

lemma randomSuffix_range:
  assumes "isDraw u"
  shows "100 \<le> randomSuffix u \<and> randomSuffix u \<le> 999"
proof -
  define y where "y = toDouble (u * 900) + 100"
  have y: "0 < y" "100 \<le> y" "y \<le> 1000 - 1 / 2 ^ 43"
    using toDouble_times_900 [OF assms] by (simp_all add: y_def)
  have e: "ulpExponent y \<le> 9 - 52"
    using y by (intro ulpExponent_le) (simp_all add: pow2_numerals)
  then have e43: "ulpExponent y \<le> - 43" and e0: "ulpExponent y \<le> 0" by simp_all
  from grid_refine [OF e43, of "1000 * 2 ^ 43 - 1"]
  have gu: "1000 - 1 / 2 ^ 43 =
      of_int ((1000 * 2 ^ 43 - 1) * 2 ^ nat (- 43 - ulpExponent y)) * pow2 (ulpExponent y)"
    by (simp add: pow2_numerals field_simps)
  have "y \<le> of_int ((1000 * 2 ^ 43 - 1) * 2 ^ nat (- 43 - ulpExponent y)) * pow2 (ulpExponent y)"
    using y(3) unfolding gu .
  then have "toDouble y \<le> of_int ((1000 * 2 ^ 43 - 1) * 2 ^ nat (- 43 - ulpExponent y)) * pow2 (ulpExponent y)"
    by (rule toDouble_le_grid [OF y(1)])
  then have "toDouble y \<le> 1000 - 1 / 2 ^ 43" unfolding gu [symmetric] .
  then have hi: "toDouble y < 1000" by simp
  from grid_refine [OF e0, of 100]
  have gl: "100 = of_int (100 * 2 ^ nat (0 - ulpExponent y)) * pow2 (ulpExponent y)"
    by (simp add: pow2_numerals)
  have "of_int (100 * 2 ^ nat (0 - ulpExponent y)) * pow2 (ulpExponent y) \<le> y"
    using y(2) unfolding gl [symmetric] .
  then have "of_int (100 * 2 ^ nat (0 - ulpExponent y)) * pow2 (ulpExponent y) \<le> toDouble y"
    by (rule toDouble_ge_grid [OF y(1)])
  then have lo: "100 \<le> toDouble y" unfolding gl [symmetric] .
  have "(100::int) \<le> \<lfloor>toDouble y\<rfloor>" using lo by (simp add: le_floor_iff)
  moreover have "\<lfloor>toDouble y\<rfloor> < (1000::int)" using hi by (simp add: floor_less_iff)
  ultimately show ?thesis unfolding randomSuffix_def y_def [symmetric] by linarith
qed

lemma inv_member:
  assumes "hub_inv h" and "rooms h key = Some ms" and "i \<in> set ms"
  shows "\<exists>c a r m. clients h i = Some c \<and> app c = Some a \<and> room c = Some r \<and> roomKey a r = key \<and>
            meta c = Some m \<and> name m \<noteq> [] \<and> i \<noteq> []"
proof -
  have "room_inv h key ms" using assms(1,2) by (simp add: hub_inv_def)
  then obtain c a r where c: "clients h i = Some c" "app c = Some a" "room c = Some r" "roomKey a r = key"
    using assms(3) by (auto simp: room_inv_def)
  have "client_inv h i c" using assms(1) c(1) by (simp add: hub_inv_def)
  then show ?thesis using c by (auto simp: client_inv_def)
qed

lemma roomUsedNames_eq:
  assumes "hub_inv h"
  shows "roomUsedNames h key ign = namesInRoom h key ign"
proof (cases "rooms h key")
  case None
  then show ?thesis by (simp add: roomUsedNames_def namesInRoom_def membersOf_def)
next
  case (Some ms)
  have a: "\<not> (truthy ign \<and> Some i = ign) \<longleftrightarrow> Some i \<noteq> ign" if "i \<in> set ms" for i
    using inv_member [OF assms Some that] by auto
  have b: "name m \<noteq> []" if "i \<in> set ms" "clients h i = Some c" "meta c = Some m" for i c m
    using inv_member [OF assms Some that(1)] that(2,3) by auto
  have "usedNamesLoop (clients h) ign ms =
          {toLowerCase (name m) | i c m. i \<in> set ms \<and> Some i \<noteq> ign \<and> clients h i = Some c \<and> meta c = Some m}"
    unfolding usedNamesLoop_eq using a b by blast
  then show ?thesis using Some by (simp add: roomUsedNames_def namesInRoom_def membersOf_def)
qed

text \<open>
  Claim C3. For every base name, room of a reachable hub and exclusion id, with \<open>base\<close>
  the normalized base name and \<open>U\<close> the lower-cased names of the room's current members
  other than the excluded one: \<open>uniqueName\<close> reads exactly \<open>U\<close>; it returns \<open>base\<close> unchanged
  if and only if the lower-case form of \<open>base\<close> is not in \<open>U\<close>; otherwise it returns \<open>base\<close>
  with a suffix, which is the first of at most 500 random suffixes whose candidate is
  unused, or, all 500 having collided, the least of the sequential suffixes 2 to 9999
  whose candidate is unused, or, all of these having collided too, the clock modulo
  100000; whenever it returns before that last fallback, the lower-case form of the name
  returned is not in \<open>U\<close>. The random suffix of round \<open>j\<close> is the floor of the double
  \<open>rnd j * 900 + 100\<close>, product and sum each rounded to the nearest double, and is an integer
  of \<open>[100, 999]\<close> whenever the draw \<open>rnd j\<close> is a double of \<open>[0, 1)\<close>.
\<close>

theorem uniqueName_allocates:
  assumes "reachable h"
  shows
    "(let base = cleanName baseName;
          U = namesInRoom h key excludeId;
          cand = (\<lambda>j. base @ natToString (randomSuffix (rnd j)));
          seq = (\<lambda>n. base @ natToString n);
          result = uniqueName rnd now h baseName key excludeId
      in roomUsedNames h key excludeId = U
       \<and> ((result = base) = (toLowerCase base \<notin> U))
       \<and> (toLowerCase base \<in> U \<longrightarrow>
            (\<exists>j<500. result = cand j \<and> toLowerCase result \<notin> U \<and> (\<forall>j'<j. toLowerCase (cand j') \<in> U))
          \<or> ((\<forall>j<500. toLowerCase (cand j) \<in> U) \<and>
              (\<exists>n. 2 \<le> n \<and> n < 10000 \<and> result = seq n \<and> toLowerCase result \<notin> U \<and>
                   (\<forall>n'. 2 \<le> n' \<and> n' < n \<longrightarrow> toLowerCase (seq n') \<in> U)))
          \<or> ((\<forall>j<500. toLowerCase (cand j) \<in> U) \<and>
              (\<forall>n. 2 \<le> n \<and> n < 10000 \<longrightarrow> toLowerCase (seq n) \<in> U) \<and>
              result = base @ natToString (now mod 100000)))
       \<and> (\<forall>j. isDraw (rnd j) \<longrightarrow> 100 \<le> randomSuffix (rnd j) \<and> randomSuffix (rnd j) \<le> 999))"
proof -
  define base where "base = cleanName baseName"
  define U where "U = namesInRoom h key excludeId"
  define result where "result = uniqueName rnd now h baseName key excludeId"
  have used: "roomUsedNames h key excludeId = U"
    unfolding U_def using reachable_inv [OF assms] by (rule roomUsedNames_eq)
  have unfold: "result =
     (if toLowerCase base \<notin> U then base
      else (case randomLoop rnd U base 0 of
              Some candidate \<Rightarrow> candidate
            | None \<Rightarrow> (case sequentialLoop U base 2 of
                         Some candidate \<Rightarrow> candidate
                       | None \<Rightarrow> base @ natToString (now mod 100000))))"
    unfolding result_def uniqueName_def Let_def used base_def by (rule refl)
  have cases: "(\<exists>j<500. result = base @ natToString (randomSuffix (rnd j)) \<and> toLowerCase result \<notin> U \<and>
                   (\<forall>j'<j. toLowerCase (base @ natToString (randomSuffix (rnd j'))) \<in> U))
          \<or> ((\<forall>j<500. toLowerCase (base @ natToString (randomSuffix (rnd j))) \<in> U) \<and>
              (\<exists>n. 2 \<le> n \<and> n < 10000 \<and> result = base @ natToString n \<and> toLowerCase result \<notin> U \<and>
                   (\<forall>n'. 2 \<le> n' \<and> n' < n \<longrightarrow> toLowerCase (base @ natToString n') \<in> U)))
          \<or> ((\<forall>j<500. toLowerCase (base @ natToString (randomSuffix (rnd j))) \<in> U) \<and>
              (\<forall>n. 2 \<le> n \<and> n < 10000 \<longrightarrow> toLowerCase (base @ natToString n) \<in> U) \<and>
              result = base @ natToString (now mod 100000))"
    if inU: "toLowerCase base \<in> U"
  proof (cases "randomLoop rnd U base 0")
    case (Some x)
    then have "result = x" using unfold inU by simp
    with randomLoop_Some [OF Some] show ?thesis by auto
  next
    case None
    then have allr: "\<forall>j<500. toLowerCase (base @ natToString (randomSuffix (rnd j))) \<in> U"
      by (simp add: randomLoop_None)
    show ?thesis
    proof (cases "sequentialLoop U base 2")
      case (Some x)
      then have "result = x" using unfold inU None by simp
      with sequentialLoop_Some [OF Some] allr show ?thesis by auto
    next
      case none: None
      then have "\<forall>n. 2 \<le> n \<and> n < 10000 \<longrightarrow> toLowerCase (base @ natToString n) \<in> U"
        by (simp add: sequentialLoop_None)
      moreover have "result = base @ natToString (now mod 100000)"
        using unfold inU None none by simp
      ultimately show ?thesis using allr by blast
    qed
  qed
  have iff: "(result = base) = (toLowerCase base \<notin> U)"
  proof (cases "toLowerCase base \<in> U")
    case False
    then show ?thesis using unfold by simp
  next
    case True
    from cases [OF True] have "\<exists>suffix. result = base @ natToString suffix" by blast
    then have "result \<noteq> base" using natToString_nonempty by auto
    then show ?thesis using True by simp
  qed
  have range: "\<forall>j. isDraw (rnd j) \<longrightarrow> 100 \<le> randomSuffix (rnd j) \<and> randomSuffix (rnd j) \<le> 999"
    using randomSuffix_range by blast
  show ?thesis
    unfolding Let_def base_def [symmetric] U_def [symmetric] result_def [symmetric]
    using used iff cases range by blast
qed

theorem uniqueName_allocates_witness:
  "reachable demoHub
   \<and> (uniqueName (\<lambda>i. 1 / 4) 0 demoHub ''  PLAYER '' ''demo::r1'' (Some ''D'') = cleanName ''  PLAYER '')
       = (toLowerCase (cleanName ''  PLAYER '') \<notin> namesInRoom demoHub ''demo::r1'' (Some ''D''))
   \<and> uniqueName (\<lambda>i. 1 / 4) 0 demoHub ''  PLAYER '' ''demo::r1'' (Some ''D'') = ''PLAYER325''
   \<and> uniqueName (\<lambda>i. 1 / 4) 0 demoHub ''  PLAYER '' ''demo::r1'' (Some ''A'') = ''PLAYER''
   \<and> roomUsedNames demoHub ''demo::r1'' (Some ''A'') = namesInRoom demoHub ''demo::r1'' (Some ''A'')
   \<and> isDraw (1 / 2 - 1 / 2 ^ 54) \<and> randomSuffix (1 / 2 - 1 / 2 ^ 54) = 550
   \<and> uniqueName (\<lambda>i. 1 / 2 - 1 / 2 ^ 54) 0 demoHub ''Player'' ''demo::r1'' (Some ''D'') = ''Player2''"
proof -
  have e1: "uniqueName (\<lambda>i. 1 / 4) 0 demoHub ''  PLAYER '' ''demo::r1'' (Some ''D'') = ''PLAYER325''"
    by code_simp
  have e2: "uniqueName (\<lambda>i. 1 / 4) 0 demoHub ''  PLAYER '' ''demo::r1'' (Some ''A'') = ''PLAYER''"
    by code_simp
  have d: "isDraw (1 / 2 - 1 / 2 ^ 54)" by code_simp
  have s: "randomSuffix (1 / 2 - 1 / 2 ^ 54) = 550" by code_simp
  have b: "cleanName ''Player'' = ''Player''" by code_simp
  have n: "''Player'' @ natToString 550 = ''Player550''" "''Player'' @ natToString 2 = ''Player2''"
    by code_simp+
  have u0: "toLowerCase ''Player'' \<in> roomUsedNames demoHub ''demo::r1'' (Some ''D'')" by code_simp
  have u1: "toLowerCase ''Player550'' \<in> roomUsedNames demoHub ''demo::r1'' (Some ''D'')" by code_simp
  have u2: "toLowerCase ''Player2'' \<notin> roomUsedNames demoHub ''demo::r1'' (Some ''D'')" by code_simp
  note t = uniqueName_allocates [OF demo_reachable, where now = 0 and key = "''demo::r1''", unfolded Let_def]
  note q = t [where rnd = "\<lambda>i. 1 / 4" and baseName = "''  PLAYER ''"]
  note p = t [where rnd = "\<lambda>i. 1 / 2 - 1 / 2 ^ 54" and baseName = "''Player''" and excludeId = "Some ''D''",
      unfolded b s n]
  define r where "r = uniqueName (\<lambda>i. 1 / 2 - 1 / 2 ^ 54) 0 demoHub ''Player'' ''demo::r1'' (Some ''D'')"
  define U where "U = namesInRoom demoHub ''demo::r1'' (Some ''D'')"
  have U: "roomUsedNames demoHub ''demo::r1'' (Some ''D'') = U"
    unfolding U_def using p [THEN conjunct1] .
  have m: "toLowerCase ''Player'' \<in> U" "toLowerCase ''Player550'' \<in> U" "toLowerCase ''Player2'' \<notin> U"
    using u0 u1 u2 unfolding U by simp_all
  note alt = p [THEN conjunct2, THEN conjunct2, THEN conjunct1, THEN mp, OF m(1) [unfolded U_def],
      folded r_def U_def]
  have e3: "r = ''Player2''"
    using alt
  proof (elim disjE exE conjE)
    fix j :: nat assume "r = ''Player550''" "toLowerCase r \<notin> U"
    then show ?thesis using m(2) by simp
  next
    fix k :: nat assume k: "2 \<le> k" "k < 10000" "r = ''Player'' @ natToString k"
      and least: "\<forall>n'. 2 \<le> n' \<and> n' < k \<longrightarrow> toLowerCase (''Player'' @ natToString n') \<in> U"
    have "\<not> 2 < k"
    proof
      assume "2 < k"
      then have "toLowerCase (''Player'' @ natToString 2) \<in> U" using least by simp
      then show False using m(3) unfolding n by simp
    qed
    then have "k = 2" using k(1) by simp
    then show ?thesis using k(3) n(2) by simp
  next
    assume "\<forall>n. 2 \<le> n \<and> n < 10000 \<longrightarrow> toLowerCase (''Player'' @ natToString n) \<in> U"
    then have "toLowerCase (''Player'' @ natToString 2) \<in> U" by simp
    then show ?thesis using m(3) unfolding n by simp
  qed
  show ?thesis
    using q [of "Some ''D''", THEN conjunct2, THEN conjunct1] q [of "Some ''A''", THEN conjunct1]
      e1 e2 demo_reachable d s e3 [unfolded r_def]
    by (intro conjI)
qed

lemma digitChar_inj: "a < 10 \<Longrightarrow> b < 10 \<Longrightarrow> digitChar a = digitChar b \<Longrightarrow> a = b"
  by (simp add: digitChar_def)

lemma of_char_digitChar: "d < 10 \<Longrightarrow> of_char (digitChar d) = 48 + d"
  by (simp add: digitChar_def)

lemma natToString_small: "n < 10 \<Longrightarrow> natToString n = [digitChar n]"
  by (subst natToString.simps) simp

lemma natToString_big: "\<not> n < 10 \<Longrightarrow> natToString n = natToString (n div 10) @ [digitChar (n mod 10)]"
  by (subst natToString.simps) simp

lemma natToString_inj: "natToString n = natToString m \<Longrightarrow> n = m"
proof (induction n arbitrary: m rule: natToString.induct)
  case (1 n)
  show ?case
  proof (cases "n < 10")
    case True
    show ?thesis
    proof (cases "m < 10")
      case m: True
      then show ?thesis using "1.prems" True by (simp add: natToString_small digitChar_inj)
    next
      case False
      then show ?thesis
        using "1.prems" True natToString_nonempty [of "m div 10"]
        by (simp add: natToString_small natToString_big)
    qed
  next
    case False
    show ?thesis
    proof (cases "m < 10")
      case True
      then show ?thesis
        using "1.prems" False natToString_nonempty [of "n div 10"]
        by (simp add: natToString_small natToString_big)
    next
      case m: False
      have "natToString (n div 10) = natToString (m div 10)" "digitChar (n mod 10) = digitChar (m mod 10)"
        using "1.prems" False m by (simp_all add: natToString_big)
      then have "n div 10 = m div 10" "n mod 10 = m mod 10"
        using "1.IH" [OF False] digitChar_inj [of "n mod 10" "m mod 10"] by simp_all
      then show ?thesis by (metis div_mult_mod_eq)
    qed
  qed
qed

lemma lowerChar_digit: "d < 10 \<Longrightarrow> lowerChar (digitChar d) = digitChar d"
  by (simp add: lowerChar_def of_char_digitChar Let_def)

lemma isSpace_digit: "d < 10 \<Longrightarrow> \<not> isSpace (digitChar d)"
  by (auto simp: isSpace_def of_char_digitChar)

lemma natToString_digits: "c \<in> set (natToString n) \<Longrightarrow> \<exists>d<10. c = digitChar d"
proof (induction n rule: natToString.induct)
  case (1 n)
  show ?case
  proof (cases "n < 10")
    case True
    then show ?thesis using "1.prems" by (auto simp: natToString_small)
  next
    case False
    then have "c \<in> set (natToString (n div 10)) \<or> c = digitChar (n mod 10)"
      using "1.prems" by (auto simp: natToString_big)
    then show ?thesis
    proof
      assume "c \<in> set (natToString (n div 10))"
      then show ?thesis using "1.IH" [OF False] by simp
    next
      assume "c = digitChar (n mod 10)"
      then show ?thesis by (intro exI [of _ "n mod 10"]) simp
    qed
  qed
qed

lemma toLowerCase_natToString: "toLowerCase (natToString n) = natToString n"
proof -
  have "lowerChar c = c" if "c \<in> set (natToString n)" for c
    using natToString_digits [OF that] lowerChar_digit by auto
  then show ?thesis by (simp add: toLowerCase_def map_idI)
qed

lemma toLowerCase_append: "toLowerCase (a @ b) = toLowerCase a @ toLowerCase b"
  by (simp add: toLowerCase_def)

lemma candidate_inj:
  "toLowerCase (base @ natToString n) = toLowerCase (base @ natToString m) \<Longrightarrow> n = m"
  by (simp add: toLowerCase_append toLowerCase_natToString natToString_inj)

lemma candidate_not_base: "toLowerCase (base @ natToString n) \<noteq> toLowerCase base"
  using natToString_nonempty [of n] by (simp add: toLowerCase_append toLowerCase_natToString)

lemma finite_usedNamesLoop: "finite (usedNamesLoop cs ign ms)"
  by (induction ms) (auto split: option.splits)

lemma card_usedNamesLoop:
  "card (usedNamesLoop cs ign ms) \<le> length (filter (\<lambda>i. \<not> (truthy ign \<and> Some i = ign)) ms)"
proof (induction ms)
  case Nil
  show ?case by simp
next
  case (Cons x xs)
  show ?case
  proof (cases "truthy ign \<and> Some x = ign")
    case True
    then show ?thesis using Cons.IH by simp
  next
    case False
    have c: "card (usedNamesLoop cs ign (x # xs)) \<le> Suc (card (usedNamesLoop cs ign xs))"
      using False finite_usedNamesLoop [of cs ign xs]
      by (auto simp: card_insert_if split: option.splits)
    have l: "length (filter (\<lambda>i. \<not> (truthy ign \<and> Some i = ign)) (x # xs)) =
             Suc (length (filter (\<lambda>i. \<not> (truthy ign \<and> Some i = ign)) xs))"
      using False by simp
    show ?thesis using c l Cons.IH by linarith
  qed
qed

lemma all_candidates_card:
  assumes fin: "finite used" and b: "toLowerCase base \<in> used"
    and all: "\<forall>n. 2 \<le> n \<and> n < 10000 \<longrightarrow> toLowerCase (base @ natToString n) \<in> used"
  shows "9999 \<le> card used"
proof -
  let ?f = "\<lambda>n. toLowerCase (base @ natToString n)"
  let ?S = "insert (toLowerCase base) (?f ` {2..<10000})"
  have inj: "inj_on ?f {2..<10000}" using candidate_inj by (auto simp: inj_on_def)
  have "card (?f ` {2..<10000}) = 9998" using card_image [OF inj] by simp
  moreover have "toLowerCase base \<notin> ?f ` {2..<10000}"
  proof
    assume "toLowerCase base \<in> ?f ` {2..<10000}"
    then obtain n where "?f n = toLowerCase base" by auto
    then show False using candidate_not_base [of base n] by simp
  qed
  ultimately have "card ?S = 9999" by (simp add: card_insert_if)
  moreover have "?S \<subseteq> used" using b all by auto
  ultimately show ?thesis using card_mono [OF fin, of ?S] by simp
qed

lemma uniqueName_fresh:
  assumes "card (roomUsedNames h key ign) < 9999"
  shows "toLowerCase (uniqueName rnd now h b key ign) \<notin> roomUsedNames h key ign"
proof -
  let ?U = "roomUsedNames h key ign"
  let ?base = "cleanName b"
  have fin: "finite ?U" by (simp add: roomUsedNames_def finite_usedNamesLoop split: option.splits)
  show ?thesis
  proof (cases "toLowerCase ?base \<in> ?U")
    case False
    then show ?thesis by (simp add: uniqueName_def Let_def)
  next
    case True
    show ?thesis
    proof (cases "randomLoop rnd ?U ?base 0")
      case (Some x)
      then show ?thesis using True randomLoop_Some [OF Some] by (auto simp: uniqueName_def Let_def)
    next
      case None
      show ?thesis
      proof (cases "sequentialLoop ?U ?base 2")
        case (Some x)
        then show ?thesis
          using True None sequentialLoop_Some [OF Some] by (auto simp: uniqueName_def Let_def)
      next
        case none: None
        then have "\<forall>n. 2 \<le> n \<and> n < 10000 \<longrightarrow> toLowerCase (?base @ natToString n) \<in> ?U"
          by (simp add: sequentialLoop_None)
        from all_candidates_card [OF fin True this] assms show ?thesis by simp
      qed
    qed
  qed
qed

lemma names_uniqueI:
  assumes "\<And>key ms i j ci cj mi mj.
        rooms h key = Some ms \<Longrightarrow> i \<in> set ms \<Longrightarrow> j \<in> set ms \<Longrightarrow> i \<noteq> j \<Longrightarrow>
        clients h i = Some ci \<Longrightarrow> clients h j = Some cj \<Longrightarrow> meta ci = Some mi \<Longrightarrow> meta cj = Some mj
        \<Longrightarrow> toLowerCase (name mi) \<noteq> toLowerCase (name mj)"
  shows "names_unique h"
  unfolding names_unique_def using assms by blast

lemma names_uniqueD:
  assumes "names_unique h" and "rooms h key = Some ms" and "i \<in> set ms" and "j \<in> set ms" and "i \<noteq> j"
    and "clients h i = Some ci" and "clients h j = Some cj" and "meta ci = Some mi" and "meta cj = Some mj"
  shows "toLowerCase (name mi) \<noteq> toLowerCase (name mj)"
  using assms unfolding names_unique_def by blast

lemma names_unique_same_regs: "same_regs h' h \<Longrightarrow> names_unique h \<Longrightarrow> names_unique h'"
  by (simp add: same_regs_def names_unique_def)

lemma mem_roomUsedNames:
  assumes "hub_inv h" and "rooms h key = Some ms" and "j \<in> set ms" and "Some j \<noteq> ign"
    and "clients h j = Some cj" and "meta cj = Some mj"
  shows "toLowerCase (name mj) \<in> roomUsedNames h key ign"
proof -
  have "toLowerCase (name mj) \<in> namesInRoom h key ign"
    unfolding namesInRoom_def using assms(2-6) by (auto simp: membersOf_def)
  then show ?thesis using roomUsedNames_eq [OF assms(1)] by simp
qed

lemma card_roomUsedNames_join:
  "card (roomUsedNames h key ign) \<le> length (membersOf h key)"
proof (cases "rooms h key")
  case None
  then show ?thesis by (simp add: roomUsedNames_def membersOf_def)
next
  case (Some ms)
  have "card (usedNamesLoop (clients h) ign ms) \<le> length (filter (\<lambda>i. \<not> (truthy ign \<and> Some i = ign)) ms)"
    by (rule card_usedNamesLoop)
  also have "\<dots> \<le> length ms" by simp
  finally show ?thesis using Some by (simp add: roomUsedNames_def membersOf_def)
qed

lemma card_roomUsedNames_self:
  assumes "rooms h key = Some ms" and "k \<in> set ms" and "k \<noteq> []"
  shows "card (roomUsedNames h key (Some k)) < length ms"
proof -
  have "card (usedNamesLoop (clients h) (Some k) ms)
          \<le> length (filter (\<lambda>i. \<not> (truthy (Some k) \<and> Some i = Some k)) ms)"
    by (rule card_usedNamesLoop)
  also have "\<dots> = length (filter (\<lambda>i. i \<noteq> k) ms)" using assms(3) by simp
  also have "\<dots> < length ms" using assms(2) by (intro length_filter_less [of k]) simp_all
  finally show ?thesis using assms(1) by (simp add: roomUsedNames_def)
qed

lemma membersOf_SomeE: "j \<in> set (membersOf h key) \<Longrightarrow> \<exists>ms. rooms h key = Some ms \<and> j \<in> set ms"
  by (cases "rooms h key") (simp_all add: membersOf_def)

lemma names_unique_joinEffect:
  assumes inv: "hub_inv h" and nu: "names_unique h" and c: "clients h k = Some c"
    and unj: "\<not> (truthy (app c) \<and> truthy (room c))"
    and bound: "maxRoomSize h \<le> 9999" and eff: "joinEffect rnd now h k c h'"
  shows "names_unique h'"
proof -
  from eff obtain a r nm m where e: "validChannelString a" "validChannelString r"
        "length (membersOf h (roomKey a r)) < maxRoomSize h"
        "m = nm\<lparr>name := uniqueName rnd now h (name nm) (roomKey a r) (Some (cid c))\<rparr>"
        "rooms h' = (rooms h)(roomKey a r \<mapsto> setAdd (cid c) (membersOf h (roomKey a r)))"
        "clients h' = (clients h)(k \<mapsto> joinedClient c a r m)"
    unfolding joinEffect_def by blast
  note u = inv_unjoined [OF inv c unj]
  let ?key = "roomKey a r"
  let ?U = "roomUsedNames h ?key (Some (cid c))"
  have "card ?U \<le> length (membersOf h ?key)" by (rule card_roomUsedNames_join)
  then have "card ?U < 9999" using e(3) bound by linarith
  then have fresh: "toLowerCase (name m) \<notin> ?U" using e(4) uniqueName_fresh by simp
  have notin: "k \<notin> set (membersOf h ?key)"
    using u(4) by (auto simp: membersOf_def split: option.splits)
  have newms: "setAdd (cid c) (membersOf h ?key) = membersOf h ?key @ [k]"
    using notin u(1) by (simp add: setAdd_def)
  have other: "toLowerCase (name mj) \<noteq> toLowerCase (name m)"
    if jm: "j \<in> set (membersOf h ?key)" "clients h j = Some cj" "meta cj = Some mj" for j cj mj
  proof -
    obtain ms where ms: "rooms h ?key = Some ms" "j \<in> set ms"
      using membersOf_SomeE [OF jm(1)] by blast
    have "j \<noteq> k" using that(1) notin by auto
    then have "Some j \<noteq> Some (cid c)" using u(1) by simp
    from mem_roomUsedNames [OF inv ms this that(2,3)] fresh show ?thesis by auto
  qed
  show ?thesis
  proof (rule names_uniqueI)
    fix key ms i j ci cj mi mj
    assume a: "rooms h' key = Some ms" "i \<in> set ms" "j \<in> set ms" "i \<noteq> j"
      "clients h' i = Some ci" "clients h' j = Some cj" "meta ci = Some mi" "meta cj = Some mj"
    show "toLowerCase (name mi) \<noteq> toLowerCase (name mj)"
    proof (cases "key = ?key")
      case False
      then have old: "rooms h key = Some ms" using a(1) e(5) by simp
      have "i \<noteq> k" "j \<noteq> k" using u(4) [OF old] a(2,3) by auto
      then have "clients h i = Some ci" "clients h j = Some cj" using a(5,6) e(6) by simp_all
      from names_uniqueD [OF nu old a(2,3,4) this a(7,8)] show ?thesis .
    next
      case True
      then have ms: "ms = membersOf h ?key @ [k]" using a(1) e(5) newms by simp
      consider (old) "i \<noteq> k" "j \<noteq> k" | (inew) "i = k" "j \<noteq> k" | (jnew) "j = k" "i \<noteq> k"
        using a(4) by blast
      then show ?thesis
      proof cases
        case old
        then have im: "i \<in> set (membersOf h ?key)" and jm: "j \<in> set (membersOf h ?key)"
          using a(2,3) ms by auto
        then obtain ms0 where ms0: "rooms h ?key = Some ms0" "membersOf h ?key = ms0"
          by (cases "rooms h ?key") (simp_all add: membersOf_def)
        have "clients h i = Some ci" "clients h j = Some cj" using a(5,6) e(6) old by simp_all
        from names_uniqueD [OF nu ms0(1) _ _ a(4) this a(7,8)] im jm ms0(2) show ?thesis by simp
      next
        case inew
        then have jm: "j \<in> set (membersOf h ?key)" using a(3) ms by auto
        have "clients h j = Some cj" using a(6) e(6) inew by simp
        from other [OF jm this a(8)] have "toLowerCase (name mj) \<noteq> toLowerCase (name m)" .
        moreover have "mi = m" using a(5,7) e(6) inew by (auto simp: joinedClient_def)
        ultimately show ?thesis by auto
      next
        case jnew
        then have im: "i \<in> set (membersOf h ?key)" using a(2) ms by auto
        have "clients h i = Some ci" using a(5) e(6) jnew by simp
        from other [OF im this a(7)] have "toLowerCase (name mi) \<noteq> toLowerCase (name m)" .
        moreover have "mj = m" using a(6,8) e(6) jnew by (auto simp: joinedClient_def)
        ultimately show ?thesis by auto
      qed
    qed
  qed
qed

lemma names_unique_patchEffect:
  assumes inv: "hub_inv h" and nu: "names_unique h" and c: "clients h k = Some c"
    and j: "truthy (app c) \<and> truthy (room c)"
    and bound: "maxRoomSize h \<le> 9999" and eff: "patchEffect rnd now h k c h'"
  shows "names_unique h'"
proof -
  from eff obtain p n where pn: "rooms h' = rooms h"
        "clients h' = (clients h)(k \<mapsto> c\<lparr>meta := Some (patched rnd now h c p n)\<rparr>)"
    unfolding patchEffect_def by blast
  from inv_joined [OF inv c j] obtain a r m0 ms0 where
    jn: "cid c = k" "k \<noteq> []" "app c = Some a" "room c = Some r" "meta c = Some m0"
        "rooms h (roomKey a r) = Some ms0" "k \<in> set ms0"
    by blast
  let ?m = "patched rnd now h c p n"
  let ?U = "roomUsedNames h (roomKey a r) (Some k)"
  have "room_inv h (roomKey a r) ms0" using inv jn(6) by (simp add: hub_inv_def)
  then have "length ms0 \<le> maxRoomSize h" by (simp add: room_inv_def)
  then have "card ?U < 9999"
    using card_roomUsedNames_self [OF jn(6,7,2)] bound by linarith
  then have fresh: "toLowerCase (uniqueName rnd now h n (roomKey a r) (Some k)) \<notin> ?U"
    by (rule uniqueName_fresh)
  have nm: "name ?m = name m0 \<or> toLowerCase (name ?m) \<notin> ?U"
    using fresh jn(1,3,4,5) by (simp add: patched_def)
  have other: "toLowerCase (name mj) \<noteq> toLowerCase (name ?m)"
    if "rooms h key = Some ms" "k \<in> set ms" "j \<in> set ms" "j \<noteq> k"
       "clients h j = Some cj" "meta cj = Some mj" for key ms j cj mj
  proof -
    have key: "roomKey a r = key" using inv_member_room [OF inv that(1,2) c jn(3,4)] .
    from nm show ?thesis
    proof
      assume "name ?m = name m0"
      then show ?thesis
        using names_uniqueD [OF nu that(1,3,2,4,5) c that(6) jn(5)] by simp
    next
      assume f: "toLowerCase (name ?m) \<notin> ?U"
      have "Some j \<noteq> Some k" using that(4) by simp
      from mem_roomUsedNames [OF inv that(1,3) this that(5,6)] f key show ?thesis by auto
    qed
  qed
  show ?thesis
  proof (rule names_uniqueI)
    fix key ms i j ci cj mi mj
    assume a: "rooms h' key = Some ms" "i \<in> set ms" "j \<in> set ms" "i \<noteq> j"
      "clients h' i = Some ci" "clients h' j = Some cj" "meta ci = Some mi" "meta cj = Some mj"
    have old: "rooms h key = Some ms" using a(1) pn(1) by simp
    consider (none) "i \<noteq> k" "j \<noteq> k" | (inew) "i = k" "j \<noteq> k" | (jnew) "j = k" "i \<noteq> k"
      using a(4) by blast
    then show "toLowerCase (name mi) \<noteq> toLowerCase (name mj)"
    proof cases
      case none
      then have "clients h i = Some ci" "clients h j = Some cj" using a(5,6) pn(2) by simp_all
      from names_uniqueD [OF nu old a(2,3,4) this a(7,8)] show ?thesis .
    next
      case inew
      have "clients h j = Some cj" using a(6) pn(2) inew by simp
      from other [OF old _ a(3) inew(2) this a(8)] a(2) inew(1)
      have "toLowerCase (name mj) \<noteq> toLowerCase (name ?m)" by simp
      moreover have "mi = ?m" using a(5,7) pn(2) inew by auto
      ultimately show ?thesis by auto
    next
      case jnew
      have "clients h i = Some ci" using a(5) pn(2) jnew by simp
      from other [OF old _ a(2) jnew(2) this a(7)] a(3) jnew(1)
      have "toLowerCase (name mi) \<noteq> toLowerCase (name ?m)" by simp
      moreover have "mj = ?m" using a(6,8) pn(2) jnew by auto
      ultimately show ?thesis by auto
    qed
  qed
qed

lemma names_unique_leaveRoom:
  assumes inv: "hub_inv h" and nu: "names_unique h"
  shows "names_unique (leaveRoom k h)"
proof (cases "clients h k")
  case None
  then show ?thesis using nu by (simp add: leaveRoom_absent)
next
  case (Some c)
  let ?h = "leaveRoom k h"
  have cl: "clients ?h = (clients h)(k := None)" by (rule clients_leaveRoom)
  have sub: "\<exists>ms0. rooms h key = Some ms0 \<and> set ms \<subseteq> set ms0" if "rooms ?h key = Some ms" for key ms
  proof (cases "truthy (app c) \<and> truthy (room c)")
    case False
    then show ?thesis using that rooms_leaveRoom_unjoined [OF Some False] by simp
  next
    case True
    from inv_joined [OF inv Some True] obtain a r ms1 where
      j: "app c = Some a" "room c = Some r" "validChannelString a" "validChannelString r"
         "rooms h (roomKey a r) = Some ms1"
      by blast
    from rooms_leaveRoom_joined [OF Some j] that j(5) show ?thesis
      by (cases "key = roomKey a r") (auto split: if_splits)
  qed
  show ?thesis
  proof (rule names_uniqueI)
    fix key ms i j ci cj mi mj
    assume a: "rooms ?h key = Some ms" "i \<in> set ms" "j \<in> set ms" "i \<noteq> j"
      "clients ?h i = Some ci" "clients ?h j = Some cj" "meta ci = Some mi" "meta cj = Some mj"
    from sub [OF a(1)] obtain ms0 where ms0: "rooms h key = Some ms0" "set ms \<subseteq> set ms0" by blast
    have "clients h i = Some ci" "clients h j = Some cj" using a(5,6) cl by (auto split: if_splits)
    from names_uniqueD [OF nu ms0(1) _ _ a(4) this a(7,8)] a(2,3) ms0(2)
    show "toLowerCase (name mi) \<noteq> toLowerCase (name mj)" by blast
  qed
qed

lemma names_unique_fetch:
  assumes inv: "hub_inv h" and nu: "names_unique h" and none: "clients h i = None"
  shows "names_unique (fetch w i h)"
proof (rule names_uniqueI)
  fix key ms a b ca cb ma mb
  assume s: "rooms (fetch w i h) key = Some ms" "a \<in> set ms" "b \<in> set ms" "a \<noteq> b"
    "clients (fetch w i h) a = Some ca" "clients (fetch w i h) b = Some cb" "meta ca = Some ma" "meta cb = Some mb"
  have old: "rooms h key = Some ms" using s(1) by (simp add: fetch_def)
  have ne: "x \<noteq> i" if "x \<in> set ms" for x using inv_member [OF inv old that] none by auto
  have "a \<noteq> i" "b \<noteq> i" using ne s(2,3) by simp_all
  then have "clients h a = Some ca" "clients h b = Some cb" using s(5,6) by (simp_all add: fetch_def)
  from names_uniqueD [OF nu old s(2,3,4) this s(7,8)]
  show "toLowerCase (name ma) \<noteq> toLowerCase (name mb)" .
qed

lemma env_step: "env_MAX_ROOM_SIZE (step e h) = env_MAX_ROOM_SIZE h"
proof (cases e)
  case (Connect w i)
  then show ?thesis by (simp add: fetch_def)
next
  case (Message w raw rnd now)
  show ?thesis
  proof (cases "handleMessage rnd now w raw h")
    case (Inl e')
    then show ?thesis using Message by simp
  next
    case (Inr h')
    from handleMessage_cases [OF Inr] have "env_MAX_ROOM_SIZE h' = env_MAX_ROOM_SIZE h"
      by (auto simp: same_regs_def joinEffect_def patchEffect_def)
    then show ?thesis using Message Inr by simp
  qed
next
  case (Close w)
  then show ?thesis by (simp add: cleanup_def env_leaveRoom split: option.splits)
qed

lemma names_unique_step:
  assumes inv: "hub_inv h" and sock: "sock_inv h" and nu: "names_unique h"
    and bound: "maxRoomSize h \<le> 9999" and adm: "admissible e h"
  shows "names_unique (step e h)"
proof (cases e)
  case (Connect w i)
  then have "clients h i = None" using sock adm fresh_id_absent by simp
  then show ?thesis using names_unique_fetch [OF inv nu] Connect by simp
next
  case (Message w raw rnd now)
  show ?thesis
  proof (cases "handleMessage rnd now w raw h")
    case (Inl e')
    then show ?thesis using Message nu by simp
  next
    case (Inr h')
    from handleMessage_cases [OF Inr] have "names_unique h'"
      using names_unique_same_regs [OF _ nu] names_unique_joinEffect [OF inv nu _ _ bound]
        names_unique_patchEffect [OF inv nu _ _ bound]
      by blast
    then show ?thesis using Message Inr by simp
  qed
next
  case (Close w)
  then show ?thesis using names_unique_leaveRoom [OF inv nu] nu by (simp add: cleanup_def split: option.splits)
qed

lemma names_unique_newHub: "names_unique (newHub raw)"
  by (simp add: names_unique_def newHub_def)

lemma reachable_names_unique:
  "reachable h \<Longrightarrow> maxRoomSize h \<le> 9999 \<Longrightarrow> names_unique h"
proof (induction rule: reachable.induct)
  case (reach_new raw)
  show ?case by (rule names_unique_newHub)
next
  case (reach_step h e)
  have N: "maxRoomSize (step e h) = maxRoomSize h" using env_step by (rule maxRoomSize_cong)
  then have b: "maxRoomSize h \<le> 9999" using reach_step.prems by simp
  from names_unique_step [OF reachable_inv [OF reach_step.hyps(1)] reachable_sock [OF reach_step.hyps(1)]
      reach_step.IH [OF b] b reach_step.hyps(2)]
  show ?case .
qed

text \<open>
  Claim C2, as amended. For every reachable hub whose maximum room size is at most 9999:
  within every room the display names of any two distinct members differ when
  lower-cased, every member has a display name, and every further operation (a
  connection, any message, so any join and any \<open>set-meta\<close>, a close) leaves the names
  unique. With at most 9999 members in a room, the base name and the 9998 sequential
  candidates cannot all be taken by the others, so the allocator never falls through to
  the clock.
\<close>

theorem names_unique_invariant:
  assumes "reachable h" and "maxRoomSize h \<le> 9999"
  shows "names_unique h
       \<and> (\<forall>key ms i. rooms h key = Some ms \<and> i \<in> set ms \<longrightarrow>
             (\<exists>c m. clients h i = Some c \<and> meta c = Some m \<and> name m \<noteq> []))
       \<and> (\<forall>e. admissible e h \<longrightarrow> names_unique (step e h))"
proof -
  have inv: "hub_inv h" using assms(1) by (rule reachable_inv)
  have nu: "names_unique h" using assms by (rule reachable_names_unique)
  have named: "\<forall>key ms i. rooms h key = Some ms \<and> i \<in> set ms \<longrightarrow>
             (\<exists>c m. clients h i = Some c \<and> meta c = Some m \<and> name m \<noteq> [])"
    using inv_member [OF inv] by blast
  have later: "\<forall>e. admissible e h \<longrightarrow> names_unique (step e h)"
    using names_unique_step [OF inv reachable_sock [OF assms(1)] nu assms(2)] by blast
  show ?thesis using nu named later by (intro conjI)
qed

theorem names_unique_invariant_witness:
  "reachable demoHub \<and> maxRoomSize demoHub = 64
   \<and> names_unique demoHub
   \<and> names_unique (step (Message 4 (Some (joinNamed ''demo'' ''r1'' (JStr ''PLAYER''))) (\<lambda>i. 1 / 2) 0) demoHub)"
proof -
  have f3: "maxRoomSize demoHub = 64" by code_simp
  then have b: "maxRoomSize demoHub \<le> 9999" by simp
  note t = names_unique_invariant [OF demo_reachable b]
  have adm: "admissible (Message 4 (Some (joinNamed ''demo'' ''r1'' (JStr ''PLAYER''))) (\<lambda>i. 1 / 2) 0) demoHub"
    by simp
  show ?thesis
    using t [THEN conjunct1] t [THEN conjunct2, THEN conjunct2, rule_format, OF adm] demo_reachable f3
    by (intro conjI)
qed

section \<open>A room of ten thousand\<close>

lemma handleMessage_join:
  assumes "wsToClientId h w = Some k" and "k \<noteq> []" and "clients h k = Some c"
    and "\<not> (truthy (app c) \<and> truthy (room c))"
    and "getProp msg ''type'' = Some (JStr ''join'')"
    and "getProp msg ''app'' = Some (JStr a)" and "validChannelString a"
    and "getProp msg ''room'' = Some (JStr r)" and "validChannelString r"
    and "length (membersOf h (roomKey a r)) < maxRoomSize h"
    and "normalizeMeta (getProp msg ''meta'') = Inr nm"
  shows "\<exists>h'. step (Message w (Some msg) rnd now) h = h' \<and>
           rooms h' = (rooms h)(roomKey a r \<mapsto> setAdd (cid c) (membersOf h (roomKey a r))) \<and>
           clients h' = (clients h)(k \<mapsto> joinedClient c a r
              (nm\<lparr>name := uniqueName rnd now h (name nm) (roomKey a r) (Some (cid c))\<rparr>)) \<and>
           env_MAX_ROOM_SIZE h' = env_MAX_ROOM_SIZE h"
proof -
  have "handleMessage rnd now w (Some msg) h = handleFirstJoin rnd now k c msg h"
    using assms(1-4) by (auto simp: handleMessage_def)
  then show ?thesis
    using handleFirstJoin_success [where rnd = rnd and now = now and c = c and k = k, OF assms(5-11) refl]
    by simp
qed

lemma dropWhile_none: "(\<forall>x\<in>set xs. \<not> P x) \<Longrightarrow> dropWhile P xs = xs"
  by (cases xs) auto

lemma collapseSpaces_none: "(\<forall>x\<in>set s. \<not> isSpace x) \<Longrightarrow> collapseSpaces s = s"
  by (induction s rule: collapseSpaces.induct) auto

lemma cleanName_plain:
  assumes "\<forall>x\<in>set s. \<not> isSpace x" and "s \<noteq> []" and "length s \<le> 24"
  shows "cleanName s = s"
proof -
  have "trim s = s" using assms(1) by (simp add: trim_def dropWhile_none)
  then show ?thesis using assms by (simp add: cleanName_def collapseSpaces_none)
qed

lemma length_natToString: "0 < k \<Longrightarrow> n < 10 ^ k \<Longrightarrow> length (natToString n) \<le> k"
proof (induction k arbitrary: n)
  case 0
  then show ?case by simp
next
  case (Suc k)
  show ?case
  proof (cases "n < 10")
    case True
    then show ?thesis by (simp add: natToString_small)
  next
    case False
    then have k: "0 < k" using Suc.prems(2) by (cases k) auto
    have "n div 10 < 10 ^ k" using Suc.prems(2) by (simp add: less_mult_imp_div_less mult.commute)
    from Suc.IH [OF k this] show ?thesis using False by (simp add: natToString_big)
  qed
qed

lemma crowdName_chars: "c \<in> set (crowdName i) \<Longrightarrow> c = CHR ''p'' \<or> (\<exists>d<10. c = digitChar d)"
  using natToString_digits by (auto simp: crowdName_def split: if_splits)

lemma isSpace_p: "\<not> isSpace CHR ''p''"
  by (simp add: isSpace_def)

lemma lowerChar_p: "lowerChar CHR ''p'' = CHR ''p''"
  by (simp add: lowerChar_def)

lemma crowdName_nospace: "\<forall>x\<in>set (crowdName i). \<not> isSpace x"
  using crowdName_chars isSpace_p isSpace_digit by blast

lemma toLowerCase_crowdName: "toLowerCase (crowdName i) = crowdName i"
proof -
  have "lowerChar c = c" if "c \<in> set (crowdName i)" for c
    using crowdName_chars [OF that] lowerChar_p lowerChar_digit by auto
  then show ?thesis by (simp add: toLowerCase_def map_idI)
qed

lemma cleanName_crowdName: "i < 10000 \<Longrightarrow> cleanName (crowdName i) = crowdName i"
proof -
  assume "i < 10000"
  then have "length (natToString i) \<le> 4" using length_natToString [of 4 i] by simp
  then have "length (crowdName i) \<le> 24" by (simp add: crowdName_def)
  moreover have "crowdName i \<noteq> []" by (simp add: crowdName_def)
  ultimately show ?thesis using crowdName_nospace by (intro cleanName_plain) auto
qed

lemma crowdName_inj:
  assumes "crowdName i = crowdName j" and "1 \<le> i" and "1 \<le> j"
  shows "i = j"
proof (cases "i = 1")
  case True
  show ?thesis
  proof (cases "j = 1")
    case False
    then have "natToString j = []" using assms(1) True by (simp add: crowdName_def)
    then show ?thesis using natToString_nonempty by simp
  qed (simp add: True)
next
  case False
  show ?thesis
  proof (cases "j = 1")
    case True
    then have "natToString i = []" using assms(1) False by (simp add: crowdName_def)
    then show ?thesis using natToString_nonempty by simp
  next
    case j: False
    then have "natToString i = natToString j" using assms(1) False by (simp add: crowdName_def)
    then show ?thesis by (rule natToString_inj)
  qed
qed

lemma crowdName_seq: "2 \<le> n \<Longrightarrow> ''p'' @ natToString n = crowdName n"
  by (simp add: crowdName_def)

lemma set_crowdIds: "set (crowdIds n) = natToString ` {1..n}"
  by (simp del: upt_Suc add: crowdIds_def atLeastLessThanSuc_atLeastAtMost)

lemma crowdIds_Suc: "crowdIds (Suc n) = crowdIds n @ [natToString (Suc n)]"
  by (simp add: crowdIds_def)

lemma length_crowdIds: "length (crowdIds n) = n"
  by (simp del: upt_Suc add: crowdIds_def)

lemma crowdIds_0: "crowdIds 0 = []"
  by (simp add: crowdIds_def)

lemma maxRoomSize_10000: "env_MAX_ROOM_SIZE h = Some 10000 \<Longrightarrow> maxRoomSize h = 10000"
  by (simp add: maxRoomSize_def)

lemma valid_demo: "validChannelString ''demo''" "validChannelString ''r1''"
  by (simp_all add: validChannelString_def channelChar_def)

lemma joinNamed_props:
  "getProp (joinNamed a r n) ''type'' = Some (JStr ''join'')"
  "getProp (joinNamed a r n) ''app'' = Some (JStr a)"
  "getProp (joinNamed a r n) ''room'' = Some (JStr r)"
  "getProp (joinNamed a r n) ''meta'' = Some (JObj [(''name'', n)])"
  by (simp_all add: joinNamed_def joinMsg_def)

lemma normalizeMeta_named:
  "normalizeMeta (Some (JObj [(''name'', JStr s)])) = Inr \<lparr>name = cleanName s, status = ''lobby''\<rparr>"
  by (simp add: normalizeMeta_def normalizePresenceStatus_def)

text \<open>
  One connection and join on top of a crowd of \<open>n\<close>: what the newcomer's name becomes is
  left to the caller.
\<close>

lemma crowd_admissible:
  assumes "crowdState n h" and "k \<notin> natToString ` {1..n}" and "\<not> (1 \<le> w \<and> w \<le> n)"
  shows "admissible (Connect w k) h"
proof -
  have wm: "wsToClientId h = (\<lambda>w. if 1 \<le> w \<and> w \<le> n then Some (natToString w) else None)"
    using assms(1) by (simp add: crowdState_def)
  have "k \<notin> ran (wsToClientId h)" using assms(2) by (auto simp: wm ran_def split: if_splits)
  moreover have "wsToClientId h w = None" using assms(3) by (simp add: wm)
  ultimately show ?thesis by simp
qed

lemma crowd_join:
  assumes st: "crowdState n h" and n: "n < 10000" and fresh: "k \<notin> natToString ` {1..n}" and k: "k \<noteq> []"
    and sock: "\<not> (1 \<le> w \<and> w \<le> n)"
  shows "\<exists>h'. fold step [Connect w k, Message w (Some (joinNamed ''demo'' ''r1'' (JStr s))) rnd now] h = h'
           \<and> reachable h' \<and> env_MAX_ROOM_SIZE h' = Some 10000
           \<and> membersOf h' (roomKey ''demo'' ''r1'') = crowdIds n @ [k]
           \<and> (\<forall>i. 1 \<le> i \<and> i \<le> n \<longrightarrow>
                 (\<exists>c. clients h' (natToString i) = Some c \<and>
                      meta c = Some \<lparr>name = crowdName i, status = ''lobby''\<rparr>))
           \<and> (\<exists>c. clients h' k = Some c \<and>
                 meta c = Some \<lparr>name = uniqueName rnd now (fetch w k h) (cleanName s)
                                   (roomKey ''demo'' ''r1'') (Some k),
                                 status = ''lobby''\<rparr>)
           \<and> (\<forall>k'. k' \<noteq> k \<and> k' \<notin> natToString ` {1..n} \<longrightarrow> clients h' k' = None)
           \<and> wsToClientId h' = (wsToClientId h)(w \<mapsto> k)"
proof -
  let ?key = "roomKey ''demo'' ''r1''"
  let ?h1 = "fetch w k h"
  let ?c = "\<lparr>cid = k, ws = w, app = None, room = None, meta = None\<rparr>"
  let ?msg = "joinNamed ''demo'' ''r1'' (JStr s)"
  from st have r: "reachable h" and e: "env_MAX_ROOM_SIZE h = Some 10000"
    and ms: "membersOf h ?key = crowdIds n"
    and cl: "\<forall>i. 1 \<le> i \<and> i \<le> n \<longrightarrow>
         (\<exists>c. clients h (natToString i) = Some c \<and> meta c = Some \<lparr>name = crowdName i, status = ''lobby''\<rparr>)"
    and none: "\<forall>k. k \<notin> natToString ` {1..n} \<longrightarrow> clients h k = None"
    and wm: "wsToClientId h = (\<lambda>w. if 1 \<le> w \<and> w \<le> n then Some (natToString w) else None)"
    by (simp_all add: crowdState_def)
  have adm: "admissible (Connect w k) h" using st fresh sock by (rule crowd_admissible)
  have r1: "reachable ?h1" using reach_step [OF r adm] by simp
  have w1: "wsToClientId ?h1 w = Some k" by (simp add: fetch_def)
  have c1: "clients ?h1 k = Some ?c" by (simp add: fetch_def)
  have unj: "\<not> (truthy (app ?c) \<and> truthy (room ?c))" by simp
  have ms1: "membersOf ?h1 ?key = crowdIds n"
    using ms by (simp add: membersOf_def fetch_def)
  have e1: "env_MAX_ROOM_SIZE ?h1 = Some 10000" using e by (simp add: fetch_def)
  have len: "length (membersOf ?h1 ?key) < maxRoomSize ?h1"
    using n by (simp add: ms1 maxRoomSize_10000 [OF e1] length_crowdIds)
  have nm: "normalizeMeta (getProp ?msg ''meta'') = Inr \<lparr>name = cleanName s, status = ''lobby''\<rparr>"
    by (simp add: joinNamed_props normalizeMeta_named)
  from handleMessage_join [OF w1 k c1 unj joinNamed_props(1,2) valid_demo(1) joinNamed_props(3)
      valid_demo(2) len nm, of rnd now]
  obtain h' where h': "step (Message w (Some ?msg) rnd now) ?h1 = h'"
    "rooms h' = (rooms ?h1)(?key \<mapsto> setAdd (cid ?c) (membersOf ?h1 ?key))"
    "clients h' = (clients ?h1)(k \<mapsto> joinedClient ?c ''demo'' ''r1''
        (\<lparr>name = cleanName s, status = ''lobby''\<rparr>
           \<lparr>name := uniqueName rnd now ?h1 (name \<lparr>name = cleanName s, status = ''lobby''\<rparr>) ?key (Some (cid ?c))\<rparr>))"
    "env_MAX_ROOM_SIZE h' = env_MAX_ROOM_SIZE ?h1"
    by blast
  have run: "fold step [Connect w k, Message w (Some ?msg) rnd now] h = h'"
    using h'(1) by simp
  have r2: "reachable h'"
    using reach_step [OF r1, of "Message w (Some ?msg) rnd now"] h'(1) by simp
  have notin: "k \<notin> set (crowdIds n)" using fresh by (simp add: set_crowdIds)
  have "setAdd k (crowdIds n) = crowdIds n @ [k]" using notin by (simp add: setAdd_def)
  then have ms2: "membersOf h' ?key = crowdIds n @ [k]"
    using h'(2) ms1 by (simp add: membersOf_def)
  have old: "\<exists>c. clients h' (natToString i) = Some c \<and> meta c = Some \<lparr>name = crowdName i, status = ''lobby''\<rparr>"
    if i: "1 \<le> i \<and> i \<le> n" for i
  proof -
    have "natToString i \<noteq> k" using fresh i by auto
    then have "clients h' (natToString i) = clients h (natToString i)"
      using h'(3) by (simp add: fetch_def)
    then show ?thesis using cl i by simp
  qed
  have new: "\<exists>c. clients h' k = Some c \<and>
                 meta c = Some \<lparr>name = uniqueName rnd now ?h1 (cleanName s) ?key (Some k), status = ''lobby''\<rparr>"
    using h'(3) by (simp add: joinedClient_def)
  have rest: "clients h' k' = None" if "k' \<noteq> k \<and> k' \<notin> natToString ` {1..n}" for k'
    using that h'(3) none by (simp add: fetch_def)
  have "wsToClientId h' = wsToClientId ?h1" using h'(1) wsToClientId_step [of "Message w (Some ?msg) rnd now" ?h1]
    by simp
  then have wm2: "wsToClientId h' = (wsToClientId h)(w \<mapsto> k)" by (simp add: fetch_def)
  show ?thesis
    using run r2 h'(4) e1 ms2 old new rest wm2 by (intro exI [of _ h']) simp
qed

lemma crowd_used:
  assumes st: "crowdState n h" and fresh: "k \<notin> natToString ` {1..n}"
    and sock: "\<not> (1 \<le> w \<and> w \<le> n)"
  shows "roomUsedNames (fetch w k h) (roomKey ''demo'' ''r1'') (Some k) = crowdName ` {1..n}"
proof -
  let ?key = "roomKey ''demo'' ''r1''"
  let ?h1 = "fetch w k h"
  from st have r: "reachable h"
    and ms: "membersOf h ?key = crowdIds n"
    and cl: "\<forall>i. 1 \<le> i \<and> i \<le> n \<longrightarrow>
         (\<exists>c. clients h (natToString i) = Some c \<and> meta c = Some \<lparr>name = crowdName i, status = ''lobby''\<rparr>)"
    and none: "\<forall>k. k \<notin> natToString ` {1..n} \<longrightarrow> clients h k = None"
    by (simp_all add: crowdState_def)
  have adm: "admissible (Connect w k) h" using st fresh sock by (rule crowd_admissible)
  have inv1: "hub_inv ?h1" using reachable_inv [OF reach_step [OF r adm]] by simp
  have ms1: "membersOf ?h1 ?key = crowdIds n"
    using ms by (simp add: membersOf_def fetch_def)
  have "namesInRoom ?h1 ?key (Some k) = crowdName ` {1..n}"
  proof (intro equalityI subsetI)
    fix x assume "x \<in> namesInRoom ?h1 ?key (Some k)"
    then obtain i c m where x: "x = toLowerCase (name m)" "i \<in> set (membersOf ?h1 ?key)"
        "clients ?h1 i = Some c" "meta c = Some m"
      unfolding namesInRoom_def by blast
    from x(2) ms1 obtain j where j: "i = natToString j" "1 \<le> j" "j \<le> n"
      by (auto simp: set_crowdIds)
    then have "i \<noteq> k" using fresh by auto
    then have "clients h (natToString j) = Some c" using x(3) j(1) by (simp add: fetch_def)
    then have "name m = crowdName j" using cl j(2,3) x(4) by auto
    then show "x \<in> crowdName ` {1..n}" using x(1) j(2,3) by (simp add: toLowerCase_crowdName)
  next
    fix x assume "x \<in> crowdName ` {1..n}"
    then obtain j where j: "x = crowdName j" "1 \<le> j" "j \<le> n" by auto
    then obtain c where c: "clients h (natToString j) = Some c"
        "meta c = Some \<lparr>name = crowdName j, status = ''lobby''\<rparr>"
      using cl by blast
    have ne: "natToString j \<noteq> k" using fresh j(2,3) by auto
    then have c1: "clients ?h1 (natToString j) = Some c" using c(1) by (simp add: fetch_def)
    have mem: "natToString j \<in> set (membersOf ?h1 ?key)" using j(2,3) by (simp add: ms1 set_crowdIds)
    have "Some (natToString j) \<noteq> Some k" using ne by simp
    then have "toLowerCase (name \<lparr>name = crowdName j, status = ''lobby''\<rparr>) \<in> namesInRoom ?h1 ?key (Some k)"
      unfolding namesInRoom_def using mem c1 c(2) by blast
    then show "x \<in> namesInRoom ?h1 ?key (Some k)" using j(1) by (simp add: toLowerCase_crowdName)
  qed
  then show ?thesis using roomUsedNames_eq [OF inv1] by simp
qed

lemma crowdRun_state: "n \<le> 9999 \<Longrightarrow> crowdState n (crowdRun n)"
proof (induction n)
  case 0
  show ?case
    by (simp add: crowdState_def reach_new crowdIds_0) (auto simp: newHub_def membersOf_def fun_eq_iff)
next
  case (Suc n)
  then have st: "crowdState n (crowdRun n)" and n: "n < 10000" by simp_all
  let ?k = "natToString (Suc n)"
  let ?key = "roomKey ''demo'' ''r1''"
  have fresh: "?k \<notin> natToString ` {1..n}" by (auto dest: natToString_inj)
  have k: "?k \<noteq> []" by (rule natToString_nonempty)
  have cn: "cleanName (crowdName (Suc n)) = crowdName (Suc n)"
    using Suc.prems by (intro cleanName_crowdName) simp
  have sock: "\<not> (1 \<le> Suc n \<and> Suc n \<le> n)" by simp
  have used: "roomUsedNames (fetch (Suc n) ?k (crowdRun n)) ?key (Some ?k) = crowdName ` {1..n}"
    using st fresh sock by (rule crowd_used)
  have "crowdName (Suc n) \<notin> crowdName ` {1..n}"
  proof
    assume "crowdName (Suc n) \<in> crowdName ` {1..n}"
    then obtain j where "crowdName (Suc n) = crowdName j" "1 \<le> j" "j \<le> n" by auto
    then show False using crowdName_inj [of "Suc n" j] by simp
  qed
  then have un: "uniqueName (\<lambda>j. 0) 0 (fetch (Suc n) ?k (crowdRun n)) (cleanName (crowdName (Suc n)))
                  ?key (Some ?k) = crowdName (Suc n)"
    by (simp add: uniqueName_def Let_def used cn toLowerCase_crowdName)
  from crowd_join [OF st n fresh k sock, of "crowdName (Suc n)" "\<lambda>j. 0" 0]
  obtain h' where h': "fold step [Connect (Suc n) ?k,
        Message (Suc n) (Some (joinNamed ''demo'' ''r1'' (JStr (crowdName (Suc n))))) (\<lambda>j. 0) 0] (crowdRun n) = h'"
      "reachable h'" "env_MAX_ROOM_SIZE h' = Some 10000"
      "membersOf h' ?key = crowdIds n @ [?k]"
      "\<forall>i. 1 \<le> i \<and> i \<le> n \<longrightarrow>
                 (\<exists>c. clients h' (natToString i) = Some c \<and>
                      meta c = Some \<lparr>name = crowdName i, status = ''lobby''\<rparr>)"
      "\<exists>c. clients h' ?k = Some c \<and>
                 meta c = Some \<lparr>name = uniqueName (\<lambda>j. 0) 0 (fetch (Suc n) ?k (crowdRun n))
                                   (cleanName (crowdName (Suc n))) ?key (Some ?k),
                                 status = ''lobby''\<rparr>"
      "\<forall>k'. k' \<noteq> ?k \<and> k' \<notin> natToString ` {1..n} \<longrightarrow> clients h' k' = None"
      "wsToClientId h' = (wsToClientId (crowdRun n))(Suc n \<mapsto> ?k)"
    by blast
  have eq: "crowdRun (Suc n) = h'" using h'(1) by (simp add: crowdJoin_def)
  have all: "\<exists>c. clients h' (natToString i) = Some c \<and> meta c = Some \<lparr>name = crowdName i, status = ''lobby''\<rparr>"
    if "1 \<le> i \<and> i \<le> Suc n" for i
  proof (cases "i = Suc n")
    case True
    then show ?thesis using h'(6) un by simp
  next
    case False
    then show ?thesis using h'(5) that by simp
  qed
  have rest: "clients h' k' = None" if "k' \<notin> natToString ` {1..Suc n}" for k'
  proof -
    have "k' \<noteq> ?k" using that by auto
    moreover have "k' \<notin> natToString ` {1..n}" using that by auto
    ultimately show ?thesis using h'(7) by simp
  qed
  have ms: "membersOf h' ?key = crowdIds (Suc n)" using h'(4) by (simp add: crowdIds_Suc)
  have "wsToClientId (crowdRun n) = (\<lambda>w. if 1 \<le> w \<and> w \<le> n then Some (natToString w) else None)"
    using st by (simp add: crowdState_def)
  then have wm: "wsToClientId h' = (\<lambda>w. if 1 \<le> w \<and> w \<le> Suc n then Some (natToString w) else None)"
    using h'(8) by (auto simp: fun_eq_iff)
  show ?case
    unfolding eq crowdState_def using h'(2,3) ms all rest wm by blast
qed

lemma late_name:
  assumes st: "crowdState 9999 h"
  shows "uniqueName (\<lambda>j. 0) 5 (fetch 0 (natToString 0) h) (cleanName ''p'')
           (roomKey ''demo'' ''r1'') (Some (natToString 0)) = crowdName 5"
proof -
  let ?key = "roomKey ''demo'' ''r1''"
  let ?U = "roomUsedNames (fetch 0 (natToString 0) h) ?key (Some (natToString 0))"
  have fresh: "natToString 0 \<notin> natToString ` {1..9999}" by (auto dest: natToString_inj)
  have sock: "\<not> (1 \<le> (0::nat) \<and> (0::nat) \<le> 9999)" by simp
  have used: "?U = crowdName ` {1..9999}" using st fresh sock by (rule crowd_used)
  have p: "cleanName ''p'' = ''p''" by (simp add: cleanName_def trim_def isSpace_def)
  have base: "toLowerCase ''p'' \<in> ?U"
  proof -
    have "crowdName 1 \<in> crowdName ` {1..9999}" by simp
    then show ?thesis using toLowerCase_crowdName [of 1] by (simp add: used crowdName_def)
  qed
  have cand: "toLowerCase (''p'' @ natToString n) \<in> ?U" if "2 \<le> n" "n < 10000" for n
  proof -
    have "crowdName n \<in> crowdName ` {1..9999}" using that by simp
    then show ?thesis using toLowerCase_crowdName [of n] crowdName_seq [OF that(1)] by (simp add: used)
  qed
  have rs: "randomSuffix 0 = 100" by code_simp
  have rl: "randomLoop (\<lambda>j. 0) ?U ''p'' 0 = None"
    unfolding randomLoop_None using cand [of 100] by (simp add: rs)
  have sl: "sequentialLoop ?U ''p'' 2 = None"
    unfolding sequentialLoop_None using cand by simp
  have "uniqueName (\<lambda>j. 0) 5 (fetch 0 (natToString 0) h) (cleanName ''p'') ?key (Some (natToString 0))
          = ''p'' @ natToString (5 mod 100000)"
    using base rl sl by (simp add: uniqueName_def Let_def p)
  then show ?thesis by (simp add: crowdName_def)
qed

text \<open>
  Claim C2 as stated fails. In the hub reached by these 9999 joins and the late one, the
  room is below its maximum of 10000, the base name, all random candidates and all
  sequential candidates are taken, and the late client is given \<open>p5\<close>, the name of client 5:
  the names in the room are no longer unique.
\<close>

theorem names_collide_in_crowd:
  "reachable (fold step lateJoin (crowdRun 9999))
   \<and> maxRoomSize (fold step lateJoin (crowdRun 9999)) = 10000
   \<and> \<not> names_unique (fold step lateJoin (crowdRun 9999))"
proof -
  let ?key = "roomKey ''demo'' ''r1''"
  let ?h = "crowdRun 9999"
  have st: "crowdState 9999 ?h" by (rule crowdRun_state) simp
  have fresh: "natToString 0 \<notin> natToString ` {1..9999}" by (auto dest: natToString_inj)
  have k: "natToString 0 \<noteq> []" by (rule natToString_nonempty)
  have sock: "\<not> (1 \<le> (0::nat) \<and> (0::nat) \<le> 9999)" by simp
  from crowd_join [OF st _ fresh k sock, of "''p''" "\<lambda>j. 0" 5]
  obtain h' where h': "fold step [Connect 0 (natToString 0),
        Message 0 (Some (joinNamed ''demo'' ''r1'' (JStr ''p''))) (\<lambda>j. 0) 5] ?h = h'"
      "reachable h'" "env_MAX_ROOM_SIZE h' = Some 10000"
      "membersOf h' ?key = crowdIds 9999 @ [natToString 0]"
      "\<forall>i. 1 \<le> i \<and> i \<le> 9999 \<longrightarrow>
                 (\<exists>c. clients h' (natToString i) = Some c \<and>
                      meta c = Some \<lparr>name = crowdName i, status = ''lobby''\<rparr>)"
      "\<exists>c. clients h' (natToString 0) = Some c \<and>
                 meta c = Some \<lparr>name = uniqueName (\<lambda>j. 0) 5 (fetch 0 (natToString 0) ?h)
                                   (cleanName ''p'') ?key (Some (natToString 0)),
                                 status = ''lobby''\<rparr>"
    by auto
  have eq: "fold step lateJoin ?h = h'" using h'(1) by (simp add: lateJoin_def)
  obtain ms where ms: "rooms h' ?key = Some ms" "ms = crowdIds 9999 @ [natToString 0]"
    using h'(4) by (cases "rooms h' ?key") (simp_all add: membersOf_def)
  obtain c5 where c5: "clients h' (natToString 5) = Some c5"
      "meta c5 = Some \<lparr>name = crowdName 5, status = ''lobby''\<rparr>"
  proof -
    have "(1::nat) \<le> 5 \<and> (5::nat) \<le> 9999" by simp
    then have "\<exists>c. clients h' (natToString 5) = Some c \<and>
                 meta c = Some \<lparr>name = crowdName 5, status = ''lobby''\<rparr>"
      using h'(5) by blast
    then show ?thesis using that by blast
  qed
  obtain c0 where c0: "clients h' (natToString 0) = Some c0"
      "meta c0 = Some \<lparr>name = crowdName 5, status = ''lobby''\<rparr>"
    using h'(6) late_name [OF st] by auto
  have m5: "natToString 5 \<in> set ms" using ms(2) by (simp add: set_crowdIds)
  have m0: "natToString 0 \<in> set ms" using ms(2) by simp
  have ne: "natToString 5 \<noteq> natToString 0" by (auto dest: natToString_inj)
  have "\<not> names_unique h'"
  proof
    assume "names_unique h'"
    from names_uniqueD [OF this ms(1) m5 m0 ne c5(1) c0(1) c5(2) c0(2)] show False by simp
  qed
  then show ?thesis using h'(2) maxRoomSize_10000 [OF h'(3)] eq by simp
qed

end
